theory Spec2Isabelle
  imports Complex_Main "HOL-Library.Word" "HOL-Library.Multiset"
begin

chapter \<open>The model: definitions translated from the sources\<close>

section \<open>Statuses, streams and the hash table's fields\<close>

text \<open>
  The error statuses the modelled functions return. \<open>MemLimitTooLow\<close> is
  \<^verbatim>\<open>block_mgr()->MemLimitTooLowError(...)\<close>; \<open>MemLimitExceeded d\<close> is
  \<^verbatim>\<open>Status::MemLimitExceeded()\<close> with the detail \<open>d\<close> added; \<open>MaxPartitionDepth\<close> is the
  status built from \<^verbatim>\<open>PARTITIONED_AGG_MAX_PARTITION_DEPTH\<close>; \<open>OtherError n\<close> stands for a
  status handed up from a collaborator (tuple streams, the block manager).
\<close>

datatype mem_detail =
    RepartitioningDidNotReduce nat int
  | PreaggHashTableInitFailed

datatype error =
    MemLimitTooLow
  | MemLimitExceeded mem_detail
  | MaxPartitionDepth
  | OtherError nat

text \<open>
  What the modelled code reads of a \<^verbatim>\<open>BufferedTupleStream\<close> (an external collaborator):
  its row count, the bytes it holds in memory and whether \<^verbatim>\<open>Close()\<close> was called on it.
\<close>

record tuple_stream =
  num_rows :: int
  bytes_in_mem :: int
  stream_closed :: bool

text \<open>\<^verbatim>\<open>HashTable::Bucket\<close> and the members of \<^verbatim>\<open>HashTable\<close> that the modelled code uses.
  \<open>buckets\<close> is \<open>None\<close> for the \<^verbatim>\<open>NULL\<close> pointer; \<open>data_pages\<close> lists the page sizes. Member names are
  written without their trailing underscore.\<close>

record bucket =
  filled :: bool
  matched :: bool
  hasDuplicates :: bool
  hash :: "32 word"
  bucketData :: nat

record hash_table =
  buckets :: "bucket list option"
  num_buckets :: int
  num_filled_buckets :: int
  max_num_buckets :: int
  num_resizes :: int
  data_pages :: "int list"
  total_data_page_size :: int
  has_matches :: bool

section \<open>HashTableCtx: the per-level seed table (hash-table.cc)\<close>

text \<open>
  \<^verbatim>\<open>static uint32_t SEED_PRIMES[]\<close>: seventeen entries, the first one being 1.
\<close>

definition SEED_PRIMES :: "32 word list" where
  "SEED_PRIMES =
     [1, 1431655781, 1183186591, 622729787, 472882027, 338294347, 275604541,
      41161739, 29999999, 27475109, 611603, 16313357, 11380003, 21261403,
      33393119, 101, 71043403]"

text \<open>
  The constructor's loop
  \<^verbatim>\<open>for (int i = 1; i <= max_levels; ++i) seeds_[i] = seeds_[i - 1] * SEED_PRIMES[i];\<close>
  on \<^verbatim>\<open>std::vector<uint32_t> seeds_\<close>: the product wraps around at 32 bits.
\<close>

function fill_seeds :: "nat \<Rightarrow> nat \<Rightarrow> 32 word list \<Rightarrow> 32 word list" where
  "fill_seeds i max_levels seeds =
     (if i \<le> max_levels
      then fill_seeds (i + 1) max_levels (seeds[i := seeds ! (i - 1) * SEED_PRIMES ! i])
      else seeds)"
  by pat_completeness auto
termination
  by (relation "measure (\<lambda>(i, max_levels, seeds). Suc max_levels - i)") auto

declare fill_seeds.simps [simp del]

text \<open>
  \<^verbatim>\<open>seeds_.resize(max_levels + 1); seeds_[0] = initial_seed;\<close> followed by the loop.
  The constructor asserts \<^verbatim>\<open>0 <= max_levels\<close>, \<^verbatim>\<open>max_levels < 17\<close> (the length of
  \<^verbatim>\<open>SEED_PRIMES\<close>) and \<^verbatim>\<open>initial_seed != 0\<close>; the \<^verbatim>\<open>int32_t\<close> argument is stored into
  the unsigned vector, so it is taken here as the 32-bit pattern.
\<close>

definition HashTableCtx_seeds :: "32 word \<Rightarrow> nat \<Rightarrow> 32 word list" where
  "HashTableCtx_seeds initial_seed max_levels =
     fill_seeds 1 max_levels ((replicate (max_levels + 1) 0)[0 := initial_seed])"

text \<open>
  Two checking functions used in the analysis of the table: \<open>gaps_ok cs\<close> says that no
  difference of a later and an earlier entry of \<open>cs\<close> is a multiple of \<open>2 ^ 9\<close>.
\<close>

fun gaps_from :: "32 word \<Rightarrow> 32 word list \<Rightarrow> bool" where
  "gaps_from c [] = True"
| "gaps_from c (d # ds) = (\<not> 512 dvd unat (d - c) \<and> gaps_from c ds)"

fun gaps_ok :: "32 word list \<Rightarrow> bool" where
  "gaps_ok [] = True"
| "gaps_ok (c # cs) = (gaps_from c cs \<and> gaps_ok cs)"

section \<open>HashTableCtx: comparing a row with the cached key values (hash-table.cc)\<close>

text \<open>
  The current row of \<^verbatim>\<open>ExprValuesCache\<close>: one value slot and one null flag per key
  expression (\<^verbatim>\<open>ExprValuePtr(i)\<close>, \<^verbatim>\<open>ExprValueNullPtr(0)[i]\<close>).
\<close>

record 'v cached_row =
  cur_expr_values :: "'v list"
  cur_expr_values_null :: "bool list"

text \<open>
  \<^verbatim>\<open>template<bool FORCE_NULL_EQUALITY> bool HashTableCtx::Equals(TupleRow* build_row)\<close>.
  The row is given by what the build expressions return on it, in order:
  \<open>None\<close> for the \<^verbatim>\<open>NULL\<close> pointer, \<open>Some val\<close> for a value. \<^verbatim>\<open>RawValue::Eq\<close> is a
  parameter (\<open>raw_eq\<close>). The loop runs over \<^verbatim>\<open>i = 0 .. build_expr_ctxs_.size() - 1\<close> and
  returns at the first key that differs.
\<close>

function Equals_from ::
  "bool \<Rightarrow> bool list \<Rightarrow> ('v \<Rightarrow> 'v \<Rightarrow> bool) \<Rightarrow> 'v cached_row \<Rightarrow> 'v option list \<Rightarrow> nat \<Rightarrow> bool"
where
  "Equals_from FORCE_NULL_EQUALITY finds_nulls raw_eq cache build_row i =
     (if i < length build_row then
        (case build_row ! i of
           None \<Rightarrow>
             if \<not> (FORCE_NULL_EQUALITY \<or> finds_nulls ! i) then False
             else if \<not> cur_expr_values_null cache ! i then False
             else Equals_from FORCE_NULL_EQUALITY finds_nulls raw_eq cache build_row (i + 1)
         | Some val \<Rightarrow>
             if cur_expr_values_null cache ! i then False
             else if \<not> raw_eq (cur_expr_values cache ! i) val then False
             else Equals_from FORCE_NULL_EQUALITY finds_nulls raw_eq cache build_row (i + 1))
      else True)"
  by pat_completeness auto
termination
  by (relation "measure (\<lambda>(f, fn, eq, c, row, i). length row - i)") auto

declare Equals_from.simps [simp del]

definition Equals ::
  "bool \<Rightarrow> bool list \<Rightarrow> ('v \<Rightarrow> 'v \<Rightarrow> bool) \<Rightarrow> 'v cached_row \<Rightarrow> 'v option list \<Rightarrow> bool"
where
  "Equals FORCE_NULL_EQUALITY finds_nulls raw_eq cache build_row =
     Equals_from FORCE_NULL_EQUALITY finds_nulls raw_eq cache build_row 0"

text \<open>What the claim calls a match of key \<open>i\<close>.\<close>

definition key_matches ::
  "bool \<Rightarrow> bool list \<Rightarrow> ('v \<Rightarrow> 'v \<Rightarrow> bool) \<Rightarrow> 'v cached_row \<Rightarrow> 'v option list \<Rightarrow> nat \<Rightarrow> bool"
where
  "key_matches FORCE_NULL_EQUALITY finds_nulls raw_eq cache build_row i =
     (case build_row ! i of
        None \<Rightarrow> cur_expr_values_null cache ! i \<and> (FORCE_NULL_EQUALITY \<or> finds_nulls ! i)
      | Some val \<Rightarrow> \<not> cur_expr_values_null cache ! i \<and> raw_eq (cur_expr_values cache ! i) val)"

text \<open>
  \<^verbatim>\<open>HashTableCtx::EvalRow(TupleRow* row, const vector<ExprContext*>& ctxs)\<close>, from key
  \<open>i\<close> on, with the running \<^verbatim>\<open>has_null\<close>. The row is given by what the expressions return
  on it. \<^verbatim>\<open>RawValue::Write\<close> stores the value it is given in the slot; for a \<^verbatim>\<open>NULL\<close> key
  the value it is given is the start of the array \<^verbatim>\<open>NULL_VALUE\<close>, read at the type of the
  key: \<open>null_slot i\<close> stands for that value (\<^verbatim>\<open>HashUtil::FNV_SEED\<close>, of which the array is
  made, and \<^verbatim>\<open>RawValue::Write\<close> are not among the sources).
\<close>

function EvalRow_from ::
  "bool \<Rightarrow> (nat \<Rightarrow> 'v) \<Rightarrow> 'v option list \<Rightarrow> nat \<Rightarrow> bool \<Rightarrow> 'v cached_row \<Rightarrow> bool \<times> 'v cached_row"
where
  "EvalRow_from stores_nulls null_slot ctx_values i has_null cache =
     (if i < length ctx_values then
        (case ctx_values ! i of
           None \<Rightarrow>
             if \<not> stores_nulls then (True, cache)
             else EvalRow_from stores_nulls null_slot ctx_values (i + 1) True
                    (cache\<lparr>cur_expr_values_null := (cur_expr_values_null cache)[i := True],
                           cur_expr_values := (cur_expr_values cache)[i := null_slot i]\<rparr>)
         | Some val \<Rightarrow>
             EvalRow_from stores_nulls null_slot ctx_values (i + 1) has_null
               (cache\<lparr>cur_expr_values_null := (cur_expr_values_null cache)[i := False],
                      cur_expr_values := (cur_expr_values cache)[i := val]\<rparr>))
      else (has_null, cache))"
  by pat_completeness auto
termination
  by (relation "measure (\<lambda>(s, n, vals, i, hn, c). length vals - i)") auto

declare EvalRow_from.simps [simp del]

definition EvalRow ::
  "bool \<Rightarrow> (nat \<Rightarrow> 'v) \<Rightarrow> 'v option list \<Rightarrow> 'v cached_row \<Rightarrow> bool \<times> 'v cached_row"
where
  "EvalRow stores_nulls null_slot ctx_values cache =
     EvalRow_from stores_nulls null_slot ctx_values 0 False cache"

section \<open>Partitions and the choice of the partition to spill\<close>

subsection \<open>Aggregation (partitioned-aggregation-node.cc)\<close>

text \<open>
  \<^verbatim>\<open>PartitionedAggregationNode::Partition\<close>. The three \<^verbatim>\<open>scoped_ptr\<close> members are
  options (\<open>None\<close> for \<^verbatim>\<open>NULL\<close>); \<open>agg_fn_pool\<close> holds the pool's
  \<^verbatim>\<open>total_reserved_bytes()\<close>; \<open>agg_fn_ctxs_closed\<close> says whether \<^verbatim>\<open>Close()\<close> ran on the
  partition's aggregate-function contexts.
\<close>

record agg_partition =
  is_closed :: bool
  level :: nat
  hash_tbl :: "hash_table option"
  aggregated_row_stream :: "tuple_stream option"
  unaggregated_row_stream :: "tuple_stream option"
  agg_fn_pool :: "int option"
  agg_fn_ctxs_closed :: bool

text \<open>
  Modelled from the spec: \<^verbatim>\<open>Partition::is_spilled()\<close> is declared in
  partitioned-aggregation-node.h, which is not among the sources. The specification's
  data model says the hash table is "present iff partition is resident";
  \<^verbatim>\<open>Partition::Spill()\<close> resets \<^verbatim>\<open>hash_tbl\<close> and sets no other flag.
\<close>

definition is_spilled :: "agg_partition \<Rightarrow> bool" where
  "is_spilled p = (hash_tbl p = None)"

text \<open>
  The memory the loop of \<^verbatim>\<open>SpillPartition\<close> computes for a partition it does not skip:
  \<^verbatim>\<open>aggregated_row_stream->bytes_in_mem(true) + hash_tbl->ByteSize() +
  agg_fn_pool->total_reserved_bytes()\<close>. \<^verbatim>\<open>HashTable::ByteSize\<close> (hash-table.h) is a
  parameter. The pointers are dereferenced without a test: \<^verbatim>\<open>InitStreams\<close> has set the
  stream and the pool of every partition that has a hash table. The sums are \<^verbatim>\<open>int64_t\<close>
  byte counts, taken as unbounded integers.
\<close>

definition agg_mem :: "(hash_table \<Rightarrow> int) \<Rightarrow> agg_partition \<Rightarrow> int" where
  "agg_mem ByteSize p =
     bytes_in_mem (the (aggregated_row_stream p)) + ByteSize (the (hash_tbl p))
       + the (agg_fn_pool p)"

text \<open>
  The loop of \<^verbatim>\<open>PartitionedAggregationNode::SpillPartition\<close>, from index \<open>i\<close> on, with the
  running \<^verbatim>\<open>max_freed_mem\<close> and \<^verbatim>\<open>partition_idx\<close> (\<open>None\<close> for \<open>-1\<close>).
\<close>

fun agg_pick ::
  "(hash_table \<Rightarrow> int) \<Rightarrow> agg_partition list \<Rightarrow> nat \<Rightarrow> int \<Rightarrow> nat option \<Rightarrow> nat option"
where
  "agg_pick ByteSize [] i max_freed_mem partition_idx = partition_idx"
| "agg_pick ByteSize (p # ps) i max_freed_mem partition_idx =
     (if is_closed p then agg_pick ByteSize ps (i + 1) max_freed_mem partition_idx
      else if is_spilled p then agg_pick ByteSize ps (i + 1) max_freed_mem partition_idx
      else let mem = agg_mem ByteSize p in
        if mem > max_freed_mem then agg_pick ByteSize ps (i + 1) mem (Some i)
        else agg_pick ByteSize ps (i + 1) max_freed_mem partition_idx)"

text \<open>
  \<^verbatim>\<open>PartitionedAggregationNode::SpillPartition\<close> on \<^verbatim>\<open>hash_partitions_\<close> and
  \<^verbatim>\<open>hash_tbls_\<close>. An entry of \<^verbatim>\<open>hash_tbls_\<close> is \<^verbatim>\<open>NULL\<close> (\<open>None\<close>) or points to the
  hash table of a partition (\<open>Some j\<close> for the table of partition \<open>j\<close>).
  \<^verbatim>\<open>Partition::Spill()\<close> is the parameter \<open>Spill\<close>: it returns an error status or the
  partition as it is after spilling.
\<close>

definition agg_SpillPartition ::
  "(hash_table \<Rightarrow> int) \<Rightarrow> (agg_partition \<Rightarrow> error + agg_partition) \<Rightarrow>
   agg_partition list \<times> nat option list \<Rightarrow>
   error + (agg_partition list \<times> nat option list)"
where
  "agg_SpillPartition ByteSize Spill st =
     (case st of (hash_partitions, hash_tbls) \<Rightarrow>
        (case agg_pick ByteSize hash_partitions 0 0 None of
           None \<Rightarrow> Inl MemLimitTooLow
         | Some partition_idx \<Rightarrow>
             (case Spill (hash_partitions ! partition_idx) of
                Inl e \<Rightarrow> Inl e
              | Inr p' \<Rightarrow>
                  Inr (hash_partitions[partition_idx := p'],
                       hash_tbls[partition_idx := None]))))"

subsection \<open>Join (partitioned-hash-join-node.cc)\<close>

text \<open>\<^verbatim>\<open>PartitionedHashJoinNode::Partition\<close>; the streams are options because
  \<^verbatim>\<open>Close\<close> sets the pointers to \<^verbatim>\<open>NULL\<close>. The members \<^verbatim>\<open>is_closed_\<close>, \<^verbatim>\<open>is_spilled_\<close>,
  \<^verbatim>\<open>level_\<close> and \<^verbatim>\<open>hash_tbl_\<close> carry the prefix \<open>jp\<close> here; the accessors
  \<^verbatim>\<open>is_closed()\<close>, \<^verbatim>\<open>is_spilled()\<close>, \<^verbatim>\<open>hash_tbl()\<close>, \<^verbatim>\<open>build_rows()\<close> and
  \<^verbatim>\<open>probe_rows()\<close> read the members.\<close>

record join_partition =
  jp_is_closed :: bool
  jp_is_spilled :: bool
  jp_level :: nat
  jp_hash_tbl :: "hash_table option"
  build_rows :: "tuple_stream option"
  probe_rows :: "tuple_stream option"

text \<open>
  The loop of \<^verbatim>\<open>PartitionedHashJoinNode::SpillPartition\<close>. \<^verbatim>\<open>HashTable::HasMatches\<close> and
  \<^verbatim>\<open>HashTable::ByteSize\<close> (hash-table.h) are parameters. \<open>bytes_in_mem\<close> of the build
  stream stands for \<^verbatim>\<open>build_rows()->bytes_in_mem(false)\<close>.
\<close>

fun join_pick ::
  "(hash_table \<Rightarrow> bool) \<Rightarrow> (hash_table \<Rightarrow> int) \<Rightarrow> join_partition list \<Rightarrow>
   nat \<Rightarrow> int \<Rightarrow> nat option \<Rightarrow> nat option"
where
  "join_pick HasMatches ByteSize [] i max_freed_mem partition_idx = partition_idx"
| "join_pick HasMatches ByteSize (candidate # ps) i max_freed_mem partition_idx =
     (if jp_is_closed candidate
      then join_pick HasMatches ByteSize ps (i + 1) max_freed_mem partition_idx
      else if jp_is_spilled candidate
      then join_pick HasMatches ByteSize ps (i + 1) max_freed_mem partition_idx
      else let mem = bytes_in_mem (the (build_rows candidate)) in
        (case jp_hash_tbl candidate of
           Some h \<Rightarrow>
             if HasMatches h
             then join_pick HasMatches ByteSize ps (i + 1) max_freed_mem partition_idx
             else let mem = mem + ByteSize h in
               if mem > max_freed_mem
               then join_pick HasMatches ByteSize ps (i + 1) mem (Some i)
               else join_pick HasMatches ByteSize ps (i + 1) max_freed_mem partition_idx
         | None \<Rightarrow>
             if mem > max_freed_mem
             then join_pick HasMatches ByteSize ps (i + 1) mem (Some i)
             else join_pick HasMatches ByteSize ps (i + 1) max_freed_mem partition_idx))"

text \<open>
  \<^verbatim>\<open>PartitionedHashJoinNode::SpillPartition(Partition** spilled_partition)\<close>: the result
  carries the index of \<^verbatim>\<open>*spilled_partition\<close>. \<^verbatim>\<open>Partition::Spill(false)\<close> is the
  parameter \<open>Spill\<close>.
\<close>

definition join_SpillPartition ::
  "(hash_table \<Rightarrow> bool) \<Rightarrow> (hash_table \<Rightarrow> int) \<Rightarrow>
   (join_partition \<Rightarrow> error + join_partition) \<Rightarrow>
   join_partition list \<times> nat option list \<Rightarrow>
   error + (join_partition list \<times> nat option list \<times> nat)"
where
  "join_SpillPartition HasMatches ByteSize Spill st =
     (case st of (hash_partitions, hash_tbls) \<Rightarrow>
        (case join_pick HasMatches ByteSize hash_partitions 0 0 None of
           None \<Rightarrow> Inl MemLimitTooLow
         | Some partition_idx \<Rightarrow>
             (case Spill (hash_partitions ! partition_idx) of
                Inl e \<Rightarrow> Inl e
              | Inr p' \<Rightarrow>
                  Inr (hash_partitions[partition_idx := p'],
                       hash_tbls[partition_idx := None],
                       partition_idx))))"

subsection \<open>The candidates and their memory, as the claims name them\<close>

text \<open>
  \<open>agg_candidate\<close> and \<open>join_candidate\<close> give the memory of a partition the loop
  considers, and \<open>None\<close> for one it skips. \<open>first_largest\<close> says that index \<open>i\<close> holds a
  positive memory that no candidate exceeds and no earlier candidate reaches.
\<close>

definition agg_candidate :: "(hash_table \<Rightarrow> int) \<Rightarrow> agg_partition \<Rightarrow> int option" where
  "agg_candidate ByteSize p =
     (if is_closed p \<or> is_spilled p then None else Some (agg_mem ByteSize p))"

definition join_candidate ::
  "(hash_table \<Rightarrow> bool) \<Rightarrow> (hash_table \<Rightarrow> int) \<Rightarrow> join_partition \<Rightarrow> int option"
where
  "join_candidate HasMatches ByteSize c =
     (if jp_is_closed c \<or> jp_is_spilled c then None
      else case jp_hash_tbl c of
             None \<Rightarrow> Some (bytes_in_mem (the (build_rows c)))
           | Some h \<Rightarrow>
               if HasMatches h then None
               else Some (bytes_in_mem (the (build_rows c)) + ByteSize h))"

definition first_largest :: "int option list \<Rightarrow> nat \<Rightarrow> bool" where
  "first_largest ms i =
     (i < length ms \<and>
      (\<exists>m. ms ! i = Some m \<and> 0 < m \<and>
           (\<forall>j < length ms. \<forall>m'. ms ! j = Some m' \<longrightarrow> m' \<le> m) \<and>
           (\<forall>j < i. \<forall>m'. ms ! j = Some m' \<longrightarrow> m' < m)))"

text \<open>The scan both loops perform, on the list of candidate memories.\<close>

fun scan_largest :: "int option list \<Rightarrow> nat \<Rightarrow> int \<Rightarrow> nat option \<Rightarrow> nat option" where
  "scan_largest [] i max_freed_mem partition_idx = partition_idx"
| "scan_largest (None # ms) i max_freed_mem partition_idx =
     scan_largest ms (i + 1) max_freed_mem partition_idx"
| "scan_largest (Some mem # ms) i max_freed_mem partition_idx =
     (if mem > max_freed_mem then scan_largest ms (i + 1) mem (Some i)
      else scan_largest ms (i + 1) max_freed_mem partition_idx)"

text \<open>The loop invariant of the scan: what \<^verbatim>\<open>max_freed_mem\<close> and \<^verbatim>\<open>partition_idx\<close> are
  after the candidates \<open>pre\<close> have been seen.\<close>

definition scan_inv :: "int option list \<Rightarrow> int \<Rightarrow> nat option \<Rightarrow> bool" where
  "scan_inv pre max_freed_mem partition_idx =
     (case partition_idx of
        None \<Rightarrow> max_freed_mem = 0 \<and> (\<forall>j < length pre. \<forall>m'. pre ! j = Some m' \<longrightarrow> m' \<le> 0)
      | Some k \<Rightarrow> first_largest pre k \<and> pre ! k = Some max_freed_mem)"

definition no_candidate :: "int option list \<Rightarrow> bool" where
  "no_candidate ms = (\<forall>j < length ms. \<forall>m. ms ! j = Some m \<longrightarrow> m \<le> 0)"

subsection \<open>Example partitions\<close>

text \<open>
  Small concrete values for the examples below: a hash table with \<open>n\<close> empty buckets,
  an instance of the \<open>ByteSize\<close> parameter (sixteen bytes per bucket plus the data
  pages), a stream, and resident partitions of both operators.
\<close>

definition empty_bucket :: bucket where
  "empty_bucket =
     \<lparr>filled = False, matched = False, hasDuplicates = False, hash = 0, bucketData = 0\<rparr>"

definition example_table :: "int \<Rightarrow> bool \<Rightarrow> hash_table" where
  "example_table n m =
     \<lparr>buckets = Some (replicate (nat n) empty_bucket), num_buckets = n,
      num_filled_buckets = 0, max_num_buckets = - 1, num_resizes = 0, data_pages = [],
      total_data_page_size = 0, has_matches = m\<rparr>"

definition example_ByteSize :: "hash_table \<Rightarrow> int" where
  "example_ByteSize h = num_buckets h * 16 + total_data_page_size h"

definition example_stream :: "int \<Rightarrow> int \<Rightarrow> tuple_stream" where
  "example_stream rows bytes = \<lparr>num_rows = rows, bytes_in_mem = bytes, stream_closed = False\<rparr>"

definition example_join_partition :: "int \<Rightarrow> int \<Rightarrow> bool \<Rightarrow> join_partition" where
  "example_join_partition bytes n m =
     \<lparr>jp_is_closed = False, jp_is_spilled = False, jp_level = 0,
      jp_hash_tbl = Some (example_table n m),
      build_rows = Some (example_stream 10 bytes),
      probe_rows = Some (example_stream 0 0)\<rparr>"

definition example_agg_partition :: "int \<Rightarrow> int \<Rightarrow> agg_partition" where
  "example_agg_partition bytes n =
     \<lparr>is_closed = False, level = 0, hash_tbl = Some (example_table n False),
      aggregated_row_stream = Some (example_stream 10 bytes),
      unaggregated_row_stream = Some (example_stream 0 0),
      agg_fn_pool = Some 0, agg_fn_ctxs_closed = False\<rparr>"

text \<open>A stand-in for \<^verbatim>\<open>Partition::Spill\<close> in the examples: it drops the hash table
  (and, in the join, sets the flag).\<close>

definition example_agg_Spill :: "agg_partition \<Rightarrow> error + agg_partition" where
  "example_agg_Spill p = Inr (p\<lparr>hash_tbl := None, agg_fn_pool := None\<rparr>)"

definition example_join_Spill :: "join_partition \<Rightarrow> error + join_partition" where
  "example_join_Spill p = Inr (p\<lparr>jp_hash_tbl := None, jp_is_spilled := True\<rparr>)"

section \<open>Repartitioning a spilled partition: the size check\<close>

subsection \<open>Aggregation\<close>





subsection \<open>Join\<close>





subsection \<open>The largest spilled child, as the claim names it\<close>





section \<open>Close\<close>

text \<open>
  What the \<^verbatim>\<open>Close\<close> functions change outside the object they are called on:
  \<open>block_mgr_consumed\<close> is the memory the block-manager client has consumed
  (\<^verbatim>\<open>ConsumeMemory\<close>, \<^verbatim>\<open>ReleaseMemory\<close>), \<open>tracker_consumption\<close> the consumption of the
  \<^verbatim>\<open>MemTracker\<close>, \<open>HASH_TABLE_TOTAL_BYTES\<close> the metric of that name (\<open>None\<close> when the
  pointer is \<^verbatim>\<open>NULL\<close>), \<open>frees\<close> counts the calls of \<^verbatim>\<open>free\<close> on a non-\<^verbatim>\<open>NULL\<close> pointer,
  \<open>deleted_pages\<close> lists the data pages on which \<^verbatim>\<open>Delete()\<close> was called,
  \<open>cleanups\<close> counts the calls of \<^verbatim>\<open>CleanupHashTbl\<close>, \<open>streams_closed\<close> and
  \<open>streams_transferred\<close> count the streams the join closed and deleted, or handed to
  the row batch. Counters of the runtime profile and log output are left out.
\<close>

record mem_env =
  block_mgr_consumed :: int
  tracker_consumption :: int
  HASH_TABLE_TOTAL_BYTES :: "int option"
  frees :: nat
  deleted_pages :: "int list"
  cleanups :: nat
  streams_closed :: nat
  streams_transferred :: nat

text \<open>
  \<^verbatim>\<open>HashTable::Close()\<close>. \<^verbatim>\<open>sizeof(Bucket)\<close> (hash-table.h) is a parameter. The function
  deletes the data pages, lowers the metric, clears \<^verbatim>\<open>data_pages_\<close>, frees
  \<^verbatim>\<open>buckets_\<close> without resetting the pointer, and releases
  \<^verbatim>\<open>num_buckets_ * sizeof(Bucket)\<close>.
\<close>

definition HashTable_Close :: "int \<Rightarrow> hash_table \<times> mem_env \<Rightarrow> hash_table \<times> mem_env" where
  "HashTable_Close sizeof_Bucket st =
     (case st of (h, env) \<Rightarrow>
        (h\<lparr>data_pages := []\<rparr>,
         env\<lparr>deleted_pages := deleted_pages env @ data_pages h,
             HASH_TABLE_TOTAL_BYTES :=
               map_option (\<lambda>v. v - total_data_page_size h) (HASH_TABLE_TOTAL_BYTES env),
             frees := (if buckets h \<noteq> None then frees env + 1 else frees env),
             block_mgr_consumed := block_mgr_consumed env - num_buckets h * sizeof_Bucket\<rparr>))"

text \<open>
  \<^verbatim>\<open>HashTableCtx::ExprValuesCache\<close>: the three arrays (\<open>None\<close> after \<^verbatim>\<open>reset()\<close>), the four
  cursors (offsets into the arrays, \<open>None\<close> for \<^verbatim>\<open>NULL\<close>) and the size of the null
  bitmap.
\<close>

record ExprValuesCache =
  capacity :: int
  expr_values_bytes_per_row :: int
  num_exprs :: int
  cur_expr_values_ptr :: "nat option"
  cur_expr_values_null_ptr :: "nat option"
  cur_expr_values_hash_ptr :: "nat option"
  cur_expr_values_hash_end_ptr :: "nat option"
  expr_values_array :: "8 word list option"
  expr_values_null_array :: "8 word list option"
  expr_values_hash_array :: "32 word list option"
  null_bitmap_size :: int

text \<open>\<^verbatim>\<open>ExprValuesCache::MemUsage\<close>; \<^verbatim>\<open>Bitmap::MemUsage\<close> is a parameter and
  \<^verbatim>\<open>sizeof(uint32)\<close> is 4.\<close>

definition MemUsage :: "(int \<Rightarrow> int) \<Rightarrow> int \<Rightarrow> int \<Rightarrow> int \<Rightarrow> int" where
  "MemUsage Bitmap_MemUsage cap bytes_per_row n_exprs =
     bytes_per_row * cap + n_exprs * cap + 4 * cap + Bitmap_MemUsage cap"

text \<open>\<^verbatim>\<open>ExprValuesCache::Close(MemTracker* tracker)\<close>: it returns at once when
  \<^verbatim>\<open>capacity_ == 0\<close> and does not change \<^verbatim>\<open>capacity_\<close>.\<close>

definition ExprValuesCache_Close ::
  "(int \<Rightarrow> int) \<Rightarrow> ExprValuesCache \<times> mem_env \<Rightarrow> ExprValuesCache \<times> mem_env"
where
  "ExprValuesCache_Close Bitmap_MemUsage st =
     (case st of (c, env) \<Rightarrow>
        if capacity c = 0 then (c, env)
        else
          (c\<lparr>cur_expr_values_ptr := None, cur_expr_values_null_ptr := None,
             cur_expr_values_hash_ptr := None, cur_expr_values_hash_end_ptr := None,
             expr_values_array := None, expr_values_null_array := None,
             expr_values_hash_array := None, null_bitmap_size := 0\<rparr>,
           env\<lparr>tracker_consumption := tracker_consumption env
                  - MemUsage Bitmap_MemUsage (capacity c) (expr_values_bytes_per_row c)
                      (num_exprs c)\<rparr>))"

text \<open>\<^verbatim>\<open>HashTableCtx::Close()\<close>: \<^verbatim>\<open>free(scratch_row_); scratch_row_ = NULL;\<close> and the
  cache's \<^verbatim>\<open>Close\<close>.\<close>

record HashTableCtx =
  scratch_row :: "nat option"
  expr_values_cache :: ExprValuesCache

definition HashTableCtx_Close ::
  "(int \<Rightarrow> int) \<Rightarrow> HashTableCtx \<times> mem_env \<Rightarrow> HashTableCtx \<times> mem_env"
where
  "HashTableCtx_Close Bitmap_MemUsage st =
     (case st of (ctx, env) \<Rightarrow>
        let env1 = (if scratch_row ctx \<noteq> None then env\<lparr>frees := frees env + 1\<rparr> else env);
            (c', env2) = ExprValuesCache_Close Bitmap_MemUsage (expr_values_cache ctx, env1)
        in (ctx\<lparr>scratch_row := None, expr_values_cache := c'\<rparr>, env2))"

text \<open>
  \<^verbatim>\<open>PartitionedAggregationNode::Partition::Close(bool finalize_rows)\<close>. Closing a stream
  sets its flag; \<^verbatim>\<open>agg_fn_pool->FreeAll()\<close> leaves a pool with no reserved bytes.
\<close>

definition agg_Partition_Close ::
  "int \<Rightarrow> bool \<Rightarrow> agg_partition \<times> mem_env \<Rightarrow> agg_partition \<times> mem_env"
where
  "agg_Partition_Close sizeof_Bucket finalize_rows st =
     (case st of (p, env) \<Rightarrow>
        if is_closed p then (p, env)
        else
          let p1 = p\<lparr>is_closed := True\<rparr>;
              (p2, env2) =
                (case aggregated_row_stream p1 of
                   None \<Rightarrow> (p1, env)
                 | Some s \<Rightarrow>
                     (p1\<lparr>aggregated_row_stream := Some (s\<lparr>stream_closed := True\<rparr>)\<rparr>,
                      if finalize_rows \<and> hash_tbl p1 \<noteq> None
                      then env\<lparr>cleanups := cleanups env + 1\<rparr> else env));
              (p3, env3) =
                (case hash_tbl p2 of
                   None \<Rightarrow> (p2, env2)
                 | Some h \<Rightarrow>
                     (let (h', e') = HashTable_Close sizeof_Bucket (h, env2)
                      in (p2\<lparr>hash_tbl := Some h'\<rparr>, e')));
              p4 = (case unaggregated_row_stream p3 of
                      None \<Rightarrow> p3
                    | Some u \<Rightarrow>
                        p3\<lparr>unaggregated_row_stream := Some (u\<lparr>stream_closed := True\<rparr>)\<rparr>);
              p5 = p4\<lparr>agg_fn_ctxs_closed := True\<rparr>;
              p6 = (case agg_fn_pool p5 of None \<Rightarrow> p5 | Some b \<Rightarrow> p5\<lparr>agg_fn_pool := Some 0\<rparr>)
          in (p6, env3))"

text \<open>
  \<^verbatim>\<open>PartitionedHashJoinNode::Partition::Close(RowBatch* batch)\<close>; \<open>to_batch\<close> says that
  \<open>batch\<close> is not \<^verbatim>\<open>NULL\<close>, in which case the streams are handed to the batch instead of
  being closed.
\<close>

definition join_Partition_Close ::
  "int \<Rightarrow> bool \<Rightarrow> join_partition \<times> mem_env \<Rightarrow> join_partition \<times> mem_env"
where
  "join_Partition_Close sizeof_Bucket to_batch st =
     (case st of (p, env) \<Rightarrow>
        if jp_is_closed p then (p, env)
        else
          let p1 = p\<lparr>jp_is_closed := True\<rparr>;
              (p2, env2) =
                (case jp_hash_tbl p1 of
                   None \<Rightarrow> (p1, env)
                 | Some h \<Rightarrow>
                     (let (h', e') = HashTable_Close sizeof_Bucket (h, env)
                      in (p1\<lparr>jp_hash_tbl := Some h'\<rparr>, e')));
              hand_over = (\<lambda>e. if to_batch
                                then e\<lparr>streams_transferred := streams_transferred e + 1\<rparr>
                                else e\<lparr>streams_closed := streams_closed e + 1\<rparr>);
              (p3, env3) =
                (case build_rows p2 of
                   None \<Rightarrow> (p2, env2)
                 | Some s \<Rightarrow> (p2\<lparr>build_rows := None\<rparr>, hand_over env2));
              (p4, env4) =
                (case probe_rows p3 of
                   None \<Rightarrow> (p3, env3)
                 | Some s \<Rightarrow> (p3\<lparr>probe_rows := None\<rparr>, hand_over env3))
          in (p4, env4))"

definition example_env :: mem_env where
  "example_env =
     \<lparr>block_mgr_consumed = 1000, tracker_consumption = 1000,
      HASH_TABLE_TOTAL_BYTES = Some 0, frees = 0, deleted_pages = [], cleanups = 0,
      streams_closed = 0, streams_transferred = 0\<rparr>"

definition example_cache :: ExprValuesCache where
  "example_cache =
     \<lparr>capacity = 2, expr_values_bytes_per_row = 8, num_exprs = 1,
      cur_expr_values_ptr = Some 0, cur_expr_values_null_ptr = Some 0,
      cur_expr_values_hash_ptr = Some 0, cur_expr_values_hash_end_ptr = Some 0,
      expr_values_array = Some (replicate 16 0), expr_values_null_array = Some (replicate 2 0),
      expr_values_hash_array = Some (replicate 2 0), null_bitmap_size = 2\<rparr>"

section \<open>HashTable: CheckAndResize and ResizeBuckets (hash-table.cc)\<close>

text \<open>\<^verbatim>\<open>const double HashTable::MAX_FILL_FACTOR = 0.75f\<close>.\<close>

definition MAX_FILL_FACTOR :: real where
  "MAX_FILL_FACTOR = 0.75"

text \<open>
  The loop of \<^verbatim>\<open>CheckAndResize\<close>,
  \<^verbatim>\<open>while (num_filled_buckets_ + buckets_to_fill > (num_buckets_ << shift) * MAX_FILL_FACTOR) ++shift;\<close>
  with \<open>need\<close> for the sum on the left. The comparison is made in \<^verbatim>\<open>double\<close>; it is
  exact, and so agrees with the comparison of real numbers used here, as long as the sum
  is below \<open>2 ^ 53\<close> and the shifted bucket count is a power of two below \<open>2 ^ 63\<close>. The
  loop does not end when \<open>num_buckets_\<close> is 0: not returning is the value \<open>None\<close>.
\<close>

partial_function (option) find_shift :: "int \<Rightarrow> int \<Rightarrow> nat \<Rightarrow> nat option" where
  "find_shift need n_buckets shift =
     (if real_of_int need > real_of_int (n_buckets * 2 ^ shift) * MAX_FILL_FACTOR
      then find_shift need n_buckets (shift + 1)
      else Some shift)"

text \<open>
  \<^verbatim>\<open>HashTable::ResizeBuckets(int64_t num_buckets, const HashTableCtx* ht_ctx)\<close>. The
  parameters are \<^verbatim>\<open>ConsumeMemory\<close> of the block manager (whether it grants the bytes, in
  the given environment), \<open>rebuild\<close> for the loop that copies the filled buckets into the
  new array (\<^verbatim>\<open>Begin\<close>, \<^verbatim>\<open>NextFilledBucket\<close> and \<^verbatim>\<open>Probe\<close> are in hash-table.inline.h), and
  \<^verbatim>\<open>sizeof(Bucket)\<close>. The result is the returned flag with the table and the
  environment after the call.
\<close>

definition ResizeBuckets ::
  "(mem_env \<Rightarrow> int \<Rightarrow> bool) \<Rightarrow> (bucket list option \<Rightarrow> int \<Rightarrow> bucket list) \<Rightarrow> int \<Rightarrow>
   int \<Rightarrow> hash_table \<times> mem_env \<Rightarrow> bool \<times> hash_table \<times> mem_env"
where
  "ResizeBuckets ConsumeMemory rebuild sizeof_Bucket new_num_buckets st =
     (case st of (h, env) \<Rightarrow>
        if max_num_buckets h \<noteq> - 1 \<and> new_num_buckets > max_num_buckets h then (False, h, env)
        else
          let h1 = h\<lparr>num_resizes := num_resizes h + 1\<rparr>;
              old_size = num_buckets h1 * sizeof_Bucket;
              new_size = new_num_buckets * sizeof_Bucket
          in if \<not> ConsumeMemory env new_size then (False, h1, env)
             else
               (True,
                h1\<lparr>num_buckets := new_num_buckets,
                   buckets := Some (rebuild (buckets h1) new_num_buckets)\<rparr>,
                env\<lparr>block_mgr_consumed := block_mgr_consumed env + new_size - old_size,
                    frees := (if buckets h1 \<noteq> None then frees env + 1 else frees env)\<rparr>))"

text \<open>\<^verbatim>\<open>HashTable::CheckAndResize(uint64_t buckets_to_fill, const HashTableCtx* ht_ctx)\<close>.\<close>

definition CheckAndResize ::
  "(mem_env \<Rightarrow> int \<Rightarrow> bool) \<Rightarrow> (bucket list option \<Rightarrow> int \<Rightarrow> bucket list) \<Rightarrow> int \<Rightarrow>
   int \<Rightarrow> hash_table \<times> mem_env \<Rightarrow> (bool \<times> hash_table \<times> mem_env) option"
where
  "CheckAndResize ConsumeMemory rebuild sizeof_Bucket buckets_to_fill st =
     (case st of (h, env) \<Rightarrow>
        (case find_shift (num_filled_buckets h + buckets_to_fill) (num_buckets h) 0 of
           None \<Rightarrow> None
         | Some shift \<Rightarrow>
             if shift > 0
             then Some (ResizeBuckets ConsumeMemory rebuild sizeof_Bucket
                          (num_buckets h * 2 ^ shift) (h, env))
             else Some (True, h, env)))"

text \<open>An instance of \<open>rebuild\<close> for the examples: a new array of empty buckets.\<close>

definition example_rebuild :: "bucket list option \<Rightarrow> int \<Rightarrow> bucket list" where
  "example_rebuild old n = replicate (nat n) empty_bucket"

section \<open>Streaming pre-aggregation: whether to expand the hash tables\<close>








subsection \<open>The quantities of the claim\<close>







section \<open>Streaming pre-aggregation: creating the partitions, processing the input\<close>

subsection \<open>Creating the hash partitions (partitioned-aggregation-node.cc)\<close>

text \<open>
  Modelled from the spec: \<^verbatim>\<open>NUM_PARTITIONING_BITS\<close>, \<^verbatim>\<open>PARTITION_FANOUT\<close> and
  \<^verbatim>\<open>MAX_PARTITION_DEPTH\<close> are declared in partitioned-aggregation-node.h, which is not
  among the sources. The specification gives 4 partitioning bits, a fanout of 16 and a
  maximal depth of 16; the source asserts
  \<^verbatim>\<open>PARTITION_FANOUT == 1 << NUM_PARTITIONING_BITS\<close>.
\<close>

definition NUM_PARTITIONING_BITS :: nat where
  "NUM_PARTITIONING_BITS = 4"




text \<open>
  The members of \<^verbatim>\<open>PartitionedAggregationNode\<close> that the modelled functions use.
  \<open>mem_limit_exceeded\<close> records \<^verbatim>\<open>state_->SetMemLimitExceeded()\<close>;
  \<open>rows_returned_by_child\<close> is \<^verbatim>\<open>children_[0]->rows_returned()\<close>, \<open>rows_returned\<close> is
  \<^verbatim>\<open>num_rows_returned_\<close> and \<open>est_input_cardinality\<close> is
  \<^verbatim>\<open>estimated_input_cardinality_\<close>.
\<close>

record agg_node =
  is_streaming_preagg :: bool
  hash_partitions :: "agg_partition list"
  hash_tbls :: "nat option list"
  ht_ctx_level :: nat
  partitions_created :: int
  max_partition_level :: int
  mem_limit_exceeded :: bool
  node_env :: mem_env
  rows_returned_by_child :: int
  rows_returned :: int
  est_input_cardinality :: int











subsection \<open>Processing the input of a streaming pre-aggregation\<close>


text \<open>
  Modelled from the spec: the partition of a row (hash-table and partitioning code of
  the headers is not among the sources). "At level k, the partition id of a row is the
  top \<^verbatim>\<open>NUM_PARTITIONING_BITS\<close> of its hash."
\<close>

definition partition_idx :: "32 word \<Rightarrow> nat" where
  "partition_idx h = unat (drop_bit (32 - NUM_PARTITIONING_BITS) h)"














chapter \<open>Properties\<close>

section \<open>The seed table\<close>

lemma length_fill_seeds: "length (fill_seeds i n xs) = length xs"
proof (induction i n xs rule: fill_seeds.induct)
  case (1 i n xs)
  show ?case
    using "1.IH" by (subst fill_seeds.simps) simp
qed

lemma fill_seeds_below: "k < i \<Longrightarrow> fill_seeds i n xs ! k = xs ! k"
proof (induction i n xs rule: fill_seeds.induct)
  case (1 i n xs)
  show ?case
  proof (cases "i \<le> n")
    case True
    have "fill_seeds i n xs ! k = fill_seeds (i + 1) n (xs[i := xs ! (i - 1) * SEED_PRIMES ! i]) ! k"
      using True by (subst fill_seeds.simps) simp
    also have "\<dots> = (xs[i := xs ! (i - 1) * SEED_PRIMES ! i]) ! k"
      using "1.IH"[OF True] "1.prems" by simp
    also have "\<dots> = xs ! k" using "1.prems" by simp
    finally show ?thesis .
  next
    case False
    then show ?thesis by (subst fill_seeds.simps) simp
  qed
qed

text \<open>Every entry from index 1 on is the entry before it times its multiplier.\<close>

lemma fill_seeds_step:
  "1 \<le> i \<Longrightarrow> i \<le> k \<Longrightarrow> k \<le> n \<Longrightarrow> k < length xs \<Longrightarrow>
   fill_seeds i n xs ! k = fill_seeds i n xs ! (k - 1) * SEED_PRIMES ! k"
proof (induction i n xs rule: fill_seeds.induct)
  case (1 i n xs)
  let ?ys = "xs[i := xs ! (i - 1) * SEED_PRIMES ! i]"
  have le: "i \<le> n" using "1.prems" by simp
  have unf: "fill_seeds i n xs = fill_seeds (i + 1) n ?ys"
    using le by (subst fill_seeds.simps) simp
  show ?case
  proof (cases "k = i")
    case True
    have a: "fill_seeds (i + 1) n ?ys ! i = ?ys ! i"
      by (rule fill_seeds_below) simp
    have b: "fill_seeds (i + 1) n ?ys ! (i - 1) = ?ys ! (i - 1)"
      by (rule fill_seeds_below) simp
    have c: "?ys ! i = xs ! (i - 1) * SEED_PRIMES ! i"
      using "1.prems" True by simp
    have d: "?ys ! (i - 1) = xs ! (i - 1)"
      using "1.prems" by simp
    show ?thesis unfolding unf True a b c d ..
  next
    case False
    then have "i + 1 \<le> k" using "1.prems" by simp
    then have "fill_seeds (i + 1) n ?ys ! k = fill_seeds (i + 1) n ?ys ! (k - 1) * SEED_PRIMES ! k"
      using "1.IH"[OF le] "1.prems" by simp
    then show ?thesis unfolding unf .
  qed
qed

lemma seeds_length: "length (HashTableCtx_seeds s n) = n + 1"
  by (simp add: HashTableCtx_seeds_def length_fill_seeds)

lemma seeds_0: "HashTableCtx_seeds s n ! 0 = s"
  unfolding HashTableCtx_seeds_def by (subst fill_seeds_below) simp_all

lemma seeds_Suc:
  "Suc k \<le> n \<Longrightarrow>
   HashTableCtx_seeds s n ! Suc k = HashTableCtx_seeds s n ! k * SEED_PRIMES ! Suc k"
  unfolding HashTableCtx_seeds_def
  using fill_seeds_step[of 1 "Suc k" n "(replicate (n + 1) 0)[0 := s]"] by simp

text \<open>The table for seed \<open>s\<close> is \<open>s\<close> times the table for seed 1.\<close>

lemma seeds_scale:
  "k \<le> n \<Longrightarrow> k \<le> m \<Longrightarrow> HashTableCtx_seeds s n ! k = s * HashTableCtx_seeds 1 m ! k"
proof (induction k)
  case 0
  show ?case by (simp add: seeds_0)
next
  case (Suc k)
  then show ?case by (simp add: seeds_Suc mult.assoc)
qed

lemma seeds_1_16:
  "HashTableCtx_seeds 1 16 =
     [1, 1431655781, 2788376507, 20098585, 3794724723, 1670467761, 3900857901,
      861507567, 2746774673, 2324176245, 2197751983, 746374371, 2371631625,
      2611506483, 3633212013, 1882193153, 3727697995]"
  by code_simp

lemma pow2_dvd_mult_cancel:
  fixes s d :: nat
  shows "\<not> 2 ^ Suc m dvd d \<Longrightarrow> 2 ^ n dvd s * d \<Longrightarrow> 2 ^ (n - m) dvd s"
proof (induction m arbitrary: d n)
  case 0
  then have "odd d" by simp
  then have "coprime (2 ^ n) d" by simp
  with 0 show ?case by (simp add: coprime_dvd_mult_left_iff)
next
  case (Suc m)
  show ?case
  proof (cases "even d")
    case False
    then have "coprime (2 ^ n) d" by simp
    with Suc.prems have "2 ^ n dvd s" by (simp add: coprime_dvd_mult_left_iff)
    moreover have "(2::nat) ^ (n - Suc m) dvd 2 ^ n" by (simp add: le_imp_power_dvd)
    ultimately show ?thesis by (rule dvd_trans[rotated])
  next
    case True
    then obtain d' where d: "d = 2 * d'" by (elim evenE)
    have nd: "\<not> 2 ^ Suc m dvd d'" using Suc.prems(1) d by simp
    show ?thesis
    proof (cases n)
      case 0
      then show ?thesis by simp
    next
      case (Suc n')
      have "2 ^ n' dvd s * d'" using Suc.prems(2) d Suc by simp
      from Suc.IH[OF nd this] show ?thesis using Suc by simp
    qed
  qed
qed

lemma gaps_from_nth:
  "gaps_from c ds \<Longrightarrow> k < length ds \<Longrightarrow> \<not> 512 dvd unat (ds ! k - c)"
  by (induction ds arbitrary: k) (auto simp: nth_Cons split: nat.splits)

lemma gaps_ok_nth:
  "gaps_ok cs \<Longrightarrow> i < j \<Longrightarrow> j < length cs \<Longrightarrow> \<not> 512 dvd unat (cs ! j - cs ! i)"
proof (induction cs arbitrary: i j)
  case Nil
  then show ?case by simp
next
  case (Cons c cs)
  from Cons.prems obtain j' where j: "j = Suc j'" by (cases j) auto
  show ?case
  proof (cases i)
    case 0
    with Cons.prems j show ?thesis using gaps_from_nth[of c cs j'] by simp
  next
    case (Suc i')
    with Cons.prems j show ?thesis using Cons.IH[of i' j'] by simp
  qed
qed

lemma seed_gaps_ok: "gaps_ok (HashTableCtx_seeds 1 16)"
  unfolding seeds_1_16 by simp

text \<open>
  What does hold: the seventeen seeds are pairwise different as soon as the initial seed
  is not a multiple of \<open>2 ^ 24\<close> (in particular for every odd initial seed).
\<close>

lemma seeds_distinct_unless_multiple_of_2_24:
  assumes s: "\<not> 2 ^ 24 dvd unat initial_seed"
    and n: "max_levels \<le> 16" and ij: "i < j" "j \<le> max_levels"
  shows "HashTableCtx_seeds initial_seed max_levels ! i
           \<noteq> HashTableCtx_seeds initial_seed max_levels ! j"
proof
  let ?c = "HashTableCtx_seeds 1 16"
  let ?d = "?c ! j - ?c ! i"
  assume eq: "HashTableCtx_seeds initial_seed max_levels ! i
                = HashTableCtx_seeds initial_seed max_levels ! j"
  have "initial_seed * ?c ! i = initial_seed * ?c ! j"
    using eq seeds_scale[of i max_levels 16 initial_seed]
      seeds_scale[of j max_levels 16 initial_seed] n ij by simp
  then have "initial_seed * ?d = 0"
    by (simp add: right_diff_distrib)
  then have "unat (initial_seed * ?d) = 0" by simp
  then have "(unat initial_seed * unat ?d) mod 2 ^ 32 = 0"
    by (simp add: unat_word_ariths)
  then have dvd: "2 ^ 32 dvd unat initial_seed * unat ?d"
    by (simp add: mod_eq_0_iff_dvd)
  have "\<not> 512 dvd unat ?d"
    using gaps_ok_nth[OF seed_gaps_ok, of i j] ij n by (simp add: seeds_length)
  then have "\<not> 2 ^ Suc 8 dvd unat ?d" by simp
  from pow2_dvd_mult_cancel[OF this dvd] have "2 ^ 24 dvd unat initial_seed" by simp
  with s show False ..
qed

text \<open>
  \<^bold>\<open>C1\<close>. The claim is that the seed table is pairwise distinct for every non-zero initial
  seed. The constructor run on the non-zero initial seed \<open>0x80000000\<close> (the \<^verbatim>\<open>int32_t\<close>
  minimum) with \<open>max_levels = 16\<close> stores the same seed at all seventeen levels: every
  multiplier is odd, and an odd multiple of \<open>2 ^ 31\<close> is \<open>2 ^ 31\<close> again modulo \<open>2 ^ 32\<close>.
\<close>

theorem seeds_collide_at_0x80000000:
  "HashTableCtx_seeds 2147483648 16 = replicate 17 2147483648"
  by code_simp

section \<open>Equals\<close>

lemma Equals_from_iff:
  "Equals_from F fn eq c row i =
     (\<forall>k. i \<le> k \<and> k < length row \<longrightarrow> key_matches F fn eq c row k)"
proof (induction F fn eq c row i rule: Equals_from.induct)
  case (1 F fn eq c row i)
  show ?case
  proof (cases "i < length row")
    case False
    then show ?thesis by (subst Equals_from.simps) auto
  next
    case True
    have split: "(\<forall>k. i \<le> k \<and> k < length row \<longrightarrow> key_matches F fn eq c row k)
        = (key_matches F fn eq c row i \<and>
           (\<forall>k. i + 1 \<le> k \<and> k < length row \<longrightarrow> key_matches F fn eq c row k))"
      using True by (auto simp: Suc_le_eq dest: le_neq_implies_less)
    show ?thesis
    proof (cases "row ! i")
      case None
      show ?thesis
        unfolding split
        using True None "1.IH"(1)[OF True None]
        by (subst Equals_from.simps) (auto simp: key_matches_def)
    next
      case (Some val)
      show ?thesis
        unfolding split
        using True Some "1.IH"(2)[OF True Some]
        by (subst Equals_from.simps) (auto simp: key_matches_def)
    qed
  qed
qed

text \<open>
  Two consequences: a key whose null status differs between the row and the cache makes
  the rows unequal, whatever the flags are; and a \<^verbatim>\<open>NULL\<close> key of the row never matches when
  neither \<^verbatim>\<open>FORCE_NULL_EQUALITY\<close> nor \<^verbatim>\<open>finds_nulls_[i]\<close> is set, even against a cached
  \<^verbatim>\<open>NULL\<close>.
\<close>

lemma Equals_null_status_mismatch:
  assumes "i < length build_row"
    and "(build_row ! i = None) \<noteq> cur_expr_values_null cache ! i"
  shows "\<not> Equals F finds_nulls raw_eq cache build_row"
proof -
  have "\<not> key_matches F finds_nulls raw_eq cache build_row i"
    using assms(2) by (auto simp: key_matches_def split: option.splits)
  then show ?thesis
    using assms(1) unfolding Equals_def Equals_from_iff by blast
qed

lemma Equals_null_not_found:
  assumes "i < length build_row" and "build_row ! i = None" and "\<not> finds_nulls ! i"
  shows "\<not> Equals False finds_nulls raw_eq cache build_row"
proof -
  have "\<not> key_matches False finds_nulls raw_eq cache build_row i"
    using assms(2,3) by (simp add: key_matches_def)
  then show ?thesis
    using assms(1) unfolding Equals_def Equals_from_iff by blast
qed

text \<open>
  \<^bold>\<open>C5\<close>. \<^verbatim>\<open>Equals<FORCE_NULL_EQUALITY>(build_row)\<close> is true exactly when every key \<open>i\<close>
  matches: either the row's value and the cached value are both \<^verbatim>\<open>NULL\<close> and
  \<^verbatim>\<open>FORCE_NULL_EQUALITY\<close> or \<^verbatim>\<open>finds_nulls_[i]\<close> holds, or both are non-\<^verbatim>\<open>NULL\<close> and
  \<^verbatim>\<open>RawValue::Eq\<close> holds of them.
\<close>

theorem Equals_iff_all_keys_match:
  "Equals FORCE_NULL_EQUALITY finds_nulls raw_eq cache build_row =
     (\<forall>i < length build_row.
        (build_row ! i = None \<and> cur_expr_values_null cache ! i
           \<and> (FORCE_NULL_EQUALITY \<or> finds_nulls ! i)) \<or>
        (\<exists>val. build_row ! i = Some val \<and> \<not> cur_expr_values_null cache ! i
           \<and> raw_eq (cur_expr_values cache ! i) val))"
  unfolding Equals_def Equals_from_iff key_matches_def
  by (auto split: option.splits)

text \<open>
  The theorem at a two-key row \<open>(NULL, 5)\<close> against the cached \<open>(NULL, 5)\<close> with
  \<open>finds_nulls = [True, False]\<close> and no forcing: both keys match, and \<open>Equals\<close> is true.
\<close>

theorem Equals_iff_all_keys_match_witness:
  "Equals False [True, False] (=)
     \<lparr>cur_expr_values = [77, 5 :: int], cur_expr_values_null = [True, False]\<rparr>
     [None, Some 5]"
  using Equals_iff_all_keys_match [of False "[True, False]" "(=)"
      "\<lparr>cur_expr_values = [77, 5 :: int], cur_expr_values_null = [True, False]\<rparr>"
      "[None, Some 5]"]
  by (simp add: nth_Cons' less_Suc_eq numeral_2_eq_2 all_conj_distrib)

section \<open>EvalRow and the representation of NULL keys\<close>

lemma EvalRow_from_stores_nulls:
  assumes "EvalRow_from s null_slot vals i hn cache = (hn', cache')"
    and "length (cur_expr_values cache) = length vals"
    and "length (cur_expr_values_null cache) = length vals"
    and "s"
  shows "length (cur_expr_values cache') = length vals
     \<and> length (cur_expr_values_null cache') = length vals
     \<and> (\<forall>k < i. cur_expr_values cache' ! k = cur_expr_values cache ! k
                \<and> cur_expr_values_null cache' ! k = cur_expr_values_null cache ! k)
     \<and> (\<forall>k. i \<le> k \<and> k < length vals \<longrightarrow>
           (case vals ! k of
              None \<Rightarrow> cur_expr_values_null cache' ! k \<and> cur_expr_values cache' ! k = null_slot k
            | Some val \<Rightarrow> \<not> cur_expr_values_null cache' ! k \<and> cur_expr_values cache' ! k = val))
     \<and> (hn' \<longleftrightarrow> hn \<or> (\<exists>k. i \<le> k \<and> k < length vals \<and> vals ! k = None))"
  using assms
proof (induction s null_slot vals i hn cache rule: EvalRow_from.induct)
  case (1 s null_slot vals i hn cache)
  have nn: "\<not> \<not> s" using "1.prems"(4) by simp
  show ?case
  proof (cases "i < length vals")
    case False
    then have "hn' = hn" "cache' = cache"
      using "1.prems"(1) by (subst (asm) EvalRow_from.simps, simp)+
    then show ?thesis using False "1.prems"(2,3) by auto
  next
    case True
    show ?thesis
    proof (cases "vals ! i")
      case None
      let ?c = "cache\<lparr>cur_expr_values_null := (cur_expr_values_null cache)[i := True],
                     cur_expr_values := (cur_expr_values cache)[i := null_slot i]\<rparr>"
      have r: "EvalRow_from s null_slot vals (i + 1) True ?c = (hn', cache')"
        using "1.prems"(1,4) True None by (subst (asm) EvalRow_from.simps) simp
      have l: "length (cur_expr_values ?c) = length vals"
        "length (cur_expr_values_null ?c) = length vals"
        using "1.prems"(2,3) by simp_all
      from "1.IH"(1)[OF True None nn r l "1.prems"(4)]
      have IH: "length (cur_expr_values cache') = length vals"
        "length (cur_expr_values_null cache') = length vals"
        "\<forall>k < i + 1. cur_expr_values cache' ! k = cur_expr_values ?c ! k
                \<and> cur_expr_values_null cache' ! k = cur_expr_values_null ?c ! k"
        "\<forall>k. i + 1 \<le> k \<and> k < length vals \<longrightarrow>
           (case vals ! k of
              None \<Rightarrow> cur_expr_values_null cache' ! k \<and> cur_expr_values cache' ! k = null_slot k
            | Some val \<Rightarrow> \<not> cur_expr_values_null cache' ! k \<and> cur_expr_values cache' ! k = val)"
        "hn' \<longleftrightarrow> True \<or> (\<exists>k. i + 1 \<le> k \<and> k < length vals \<and> vals ! k = None)"
        by simp_all
      have ati: "cur_expr_values_null cache' ! i \<and> cur_expr_values cache' ! i = null_slot i"
        using IH(3) True "1.prems"(2,3) by simp
      have below: "\<forall>k < i. cur_expr_values cache' ! k = cur_expr_values cache ! k
                \<and> cur_expr_values_null cache' ! k = cur_expr_values_null cache ! k"
        using IH(3) by simp
      have from_i: "\<forall>k. i \<le> k \<and> k < length vals \<longrightarrow>
           (case vals ! k of
              None \<Rightarrow> cur_expr_values_null cache' ! k \<and> cur_expr_values cache' ! k = null_slot k
            | Some val \<Rightarrow> \<not> cur_expr_values_null cache' ! k \<and> cur_expr_values cache' ! k = val)"
      proof (intro allI impI)
        fix k assume k: "i \<le> k \<and> k < length vals"
        show "case vals ! k of
              None \<Rightarrow> cur_expr_values_null cache' ! k \<and> cur_expr_values cache' ! k = null_slot k
            | Some val \<Rightarrow> \<not> cur_expr_values_null cache' ! k \<and> cur_expr_values cache' ! k = val"
        proof (cases "k = i")
          case True
          then show ?thesis using ati None by simp
        next
          case False
          with k have "i + 1 \<le> k \<and> k < length vals" by simp
          with IH(4) show ?thesis by blast
        qed
      qed
      have "hn'" using IH(5) by simp
      moreover have "\<exists>k. i \<le> k \<and> k < length vals \<and> vals ! k = None"
        using True None by blast
      ultimately show ?thesis using IH(1,2) below from_i by blast
    next
      case (Some val)
      let ?c = "cache\<lparr>cur_expr_values_null := (cur_expr_values_null cache)[i := False],
                     cur_expr_values := (cur_expr_values cache)[i := val]\<rparr>"
      have r: "EvalRow_from s null_slot vals (i + 1) hn ?c = (hn', cache')"
        using "1.prems"(1) True Some by (subst (asm) EvalRow_from.simps) simp
      have l: "length (cur_expr_values ?c) = length vals"
        "length (cur_expr_values_null ?c) = length vals"
        using "1.prems"(2,3) by simp_all
      from "1.IH"(2)[OF True Some r l "1.prems"(4)]
      have IH: "length (cur_expr_values cache') = length vals"
        "length (cur_expr_values_null cache') = length vals"
        "\<forall>k < i + 1. cur_expr_values cache' ! k = cur_expr_values ?c ! k
                \<and> cur_expr_values_null cache' ! k = cur_expr_values_null ?c ! k"
        "\<forall>k. i + 1 \<le> k \<and> k < length vals \<longrightarrow>
           (case vals ! k of
              None \<Rightarrow> cur_expr_values_null cache' ! k \<and> cur_expr_values cache' ! k = null_slot k
            | Some val \<Rightarrow> \<not> cur_expr_values_null cache' ! k \<and> cur_expr_values cache' ! k = val)"
        "hn' \<longleftrightarrow> hn \<or> (\<exists>k. i + 1 \<le> k \<and> k < length vals \<and> vals ! k = None)"
        by simp_all
      have ati: "\<not> cur_expr_values_null cache' ! i \<and> cur_expr_values cache' ! i = val"
        using IH(3) True "1.prems"(2,3) by simp
      have below: "\<forall>k < i. cur_expr_values cache' ! k = cur_expr_values cache ! k
                \<and> cur_expr_values_null cache' ! k = cur_expr_values_null cache ! k"
        using IH(3) by simp
      have from_i: "\<forall>k. i \<le> k \<and> k < length vals \<longrightarrow>
           (case vals ! k of
              None \<Rightarrow> cur_expr_values_null cache' ! k \<and> cur_expr_values cache' ! k = null_slot k
            | Some val \<Rightarrow> \<not> cur_expr_values_null cache' ! k \<and> cur_expr_values cache' ! k = val)"
      proof (intro allI impI)
        fix k assume k: "i \<le> k \<and> k < length vals"
        show "case vals ! k of
              None \<Rightarrow> cur_expr_values_null cache' ! k \<and> cur_expr_values cache' ! k = null_slot k
            | Some val \<Rightarrow> \<not> cur_expr_values_null cache' ! k \<and> cur_expr_values cache' ! k = val"
        proof (cases "k = i")
          case True
          then show ?thesis using ati Some by simp
        next
          case False
          with k have "i + 1 \<le> k \<and> k < length vals" by simp
          with IH(4) show ?thesis by blast
        qed
      qed
      have hn: "hn' \<longleftrightarrow> hn \<or> (\<exists>k. i \<le> k \<and> k < length vals \<and> vals ! k = None)"
      proof -
        have "(\<exists>k. i \<le> k \<and> k < length vals \<and> vals ! k = None)
               = (\<exists>k. i + 1 \<le> k \<and> k < length vals \<and> vals ! k = None)"
          using Some by (metis Suc_eq_plus1 Suc_leI le_neq_implies_less option.distinct(1)
                Suc_leD)
        with IH(5) show ?thesis by simp
      qed
      show ?thesis using IH(1,2) below from_i hn by blast
    qed
  qed
qed


text \<open>
  With \<^verbatim>\<open>stores_nulls_\<close> set, \<^verbatim>\<open>EvalRow\<close> on a row whose key \<open>i\<close> is \<^verbatim>\<open>NULL\<close> sets null flag
  \<open>i\<close> and leaves the value read from \<^verbatim>\<open>NULL_VALUE\<close> in slot \<open>i\<close>; it returns true.
\<close>

lemma EvalRow_writes_null_slot:
  assumes "EvalRow True null_slot vals cache = (has_null, cache')"
    and "length (cur_expr_values cache) = length vals"
    and "length (cur_expr_values_null cache) = length vals"
    and "i < length vals" and "vals ! i = None"
  shows "cur_expr_values_null cache' ! i \<and> cur_expr_values cache' ! i = null_slot i \<and> has_null"
proof -
  from EvalRow_from_stores_nulls[OF assms(1)[unfolded EvalRow_def] assms(2,3)]
  have a: "\<forall>k. 0 \<le> k \<and> k < length vals \<longrightarrow>
           (case vals ! k of
              None \<Rightarrow> cur_expr_values_null cache' ! k \<and> cur_expr_values cache' ! k = null_slot k
            | Some val \<Rightarrow> \<not> cur_expr_values_null cache' ! k \<and> cur_expr_values cache' ! k = val)"
    and b: "has_null \<longleftrightarrow> False \<or> (\<exists>k. 0 \<le> k \<and> k < length vals \<and> vals ! k = None)"
    by simp_all
  from a assms(4,5) have "cur_expr_values_null cache' ! i \<and> cur_expr_values cache' ! i = null_slot i"
    by force
  moreover have has_null using b assms(4,5) by blast
  ultimately show ?thesis by blast
qed

text \<open>
  A row with \<^verbatim>\<open>NULL\<close> in key \<open>i\<close> that was evaluated into the cache is never equal, by
  \<^verbatim>\<open>Equals\<close>, to a row that has a value in key \<open>i\<close>, whatever that value is (0 or the
  pattern of \<^verbatim>\<open>NULL_VALUE\<close> itself) and whatever the flags are. That the two rows also
  hash differently depends on \<^verbatim>\<open>HashUtil::Hash\<close> and \<^verbatim>\<open>HashUtil::MurmurHash2_64\<close>, which
  are not among the sources, and is not settled here.
\<close>

lemma EvalRow_null_never_Equals_value:
  assumes "EvalRow True null_slot vals cache = (has_null, cache')"
    and "length (cur_expr_values cache) = length vals"
    and "length (cur_expr_values_null cache) = length vals"
    and "i < length vals" and "vals ! i = None"
    and "length build_row = length vals" and "build_row ! i = Some v"
  shows "\<not> Equals F finds_nulls raw_eq cache' build_row"
proof -
  have "cur_expr_values_null cache' ! i"
    using EvalRow_writes_null_slot[OF assms(1-5)] by simp
  then have "(build_row ! i = None) \<noteq> cur_expr_values_null cache' ! i"
    using assms(7) by simp
  then show ?thesis
    using Equals_null_status_mismatch[of i build_row cache'] assms(4,6) by simp
qed
section \<open>The choice of the partition to spill\<close>

lemma agg_pick_scan:
  "agg_pick ByteSize ps i m idx = scan_largest (map (agg_candidate ByteSize) ps) i m idx"
  by (induction ps arbitrary: i m idx) (simp_all add: agg_candidate_def Let_def)

lemma join_pick_scan:
  "join_pick HasMatches ByteSize ps i m idx =
     scan_largest (map (join_candidate HasMatches ByteSize) ps) i m idx"
  by (induction ps arbitrary: i m idx)
     (simp_all add: join_candidate_def Let_def split: option.splits)

lemma scan_inv_nonneg: "scan_inv pre m idx \<Longrightarrow> 0 \<le> m"
  by (auto simp: scan_inv_def first_largest_def split: option.splits)

lemma scan_inv_snoc_None:
  "scan_inv pre m idx \<Longrightarrow> scan_inv (pre @ [None]) m idx"
  by (auto simp: scan_inv_def first_largest_def nth_append split: option.splits)

lemma scan_inv_snoc_le:
  assumes "scan_inv pre m idx" and "\<not> mem > m"
  shows "scan_inv (pre @ [Some mem]) m idx"
proof (cases idx)
  case None
  with assms show ?thesis
    by (auto simp: scan_inv_def nth_append)
next
  case (Some k)
  with assms have fl: "first_largest pre k" and pk: "pre ! k = Some m"
    by (simp_all add: scan_inv_def)
  have "first_largest (pre @ [Some mem]) k"
    using fl pk assms(2)
    by (auto simp: first_largest_def nth_append less_Suc_eq)
  moreover have "(pre @ [Some mem]) ! k = Some m"
    using fl pk by (simp add: first_largest_def nth_append)
  ultimately show ?thesis using Some by (simp add: scan_inv_def)
qed

lemma scan_inv_snoc_gt:
  assumes "scan_inv pre m idx" and "mem > m"
  shows "scan_inv (pre @ [Some mem]) mem (Some (length pre))"
proof -
  have m0: "0 \<le> m" using assms(1) by (rule scan_inv_nonneg)
  have below: "\<forall>j < length pre. \<forall>m'. pre ! j = Some m' \<longrightarrow> m' \<le> m"
  proof (cases idx)
    case None
    with assms(1) show ?thesis by (simp add: scan_inv_def)
  next
    case (Some k)
    with assms(1) show ?thesis by (auto simp: scan_inv_def first_largest_def)
  qed
  have a: "\<forall>j < length (pre @ [Some mem]). \<forall>m'.
              (pre @ [Some mem]) ! j = Some m' \<longrightarrow> m' \<le> mem"
  proof (intro allI impI)
    fix j m' assume j: "j < length (pre @ [Some mem])" and e: "(pre @ [Some mem]) ! j = Some m'"
    show "m' \<le> mem"
    proof (cases "j < length pre")
      case True
      with e have "pre ! j = Some m'" by (simp add: nth_append)
      with below True have "m' \<le> m" by blast
      with assms(2) show ?thesis by simp
    next
      case False
      with j have "j = length pre" by simp
      with e show ?thesis by simp
    qed
  qed
  have b: "\<forall>j < length pre. \<forall>m'. (pre @ [Some mem]) ! j = Some m' \<longrightarrow> m' < mem"
  proof (intro allI impI)
    fix j m' assume j: "j < length pre" and e: "(pre @ [Some mem]) ! j = Some m'"
    then have "pre ! j = Some m'" by (simp add: nth_append)
    with below j have "m' \<le> m" by blast
    with assms(2) show "m' < mem" by simp
  qed
  have "first_largest (pre @ [Some mem]) (length pre)"
    unfolding first_largest_def
    using a b assms(2) m0 by simp
  then show ?thesis by (simp add: scan_inv_def)
qed

lemma scan_largest_inv:
  "scan_inv pre m idx \<Longrightarrow>
   \<exists>m'. scan_inv (pre @ ms) m' (scan_largest ms (length pre) m idx)"
proof (induction ms arbitrary: pre m idx)
  case Nil
  then show ?case by auto
next
  case (Cons x ms)
  show ?case
  proof (cases x)
    case None
    from Cons.IH[OF scan_inv_snoc_None[OF Cons.prems]]
    show ?thesis using None by simp
  next
    case (Some mem)
    show ?thesis
    proof (cases "mem > m")
      case True
      from Cons.IH[OF scan_inv_snoc_gt[OF Cons.prems True]]
      show ?thesis using Some True by simp
    next
      case False
      from Cons.IH[OF scan_inv_snoc_le[OF Cons.prems False]]
      show ?thesis using Some False by simp
    qed
  qed
qed

lemma scan_inv_Nil: "scan_inv [] 0 None"
  by (simp add: scan_inv_def)

lemma first_largest_unique:
  "first_largest ms i \<Longrightarrow> first_largest ms k \<Longrightarrow> i = k"
proof (rule ccontr)
  assume a: "first_largest ms i" "first_largest ms k" and ne: "i \<noteq> k"
  then consider "i < k" | "k < i" by linarith
  then show False
  proof cases
    case 1
    with a show False unfolding first_largest_def by force
  next
    case 2
    with a show False unfolding first_largest_def by force
  qed
qed

lemma first_largest_positive:
  "first_largest ms i \<Longrightarrow> \<exists>m. ms ! i = Some m \<and> 0 < m \<and> i < length ms"
  by (auto simp: first_largest_def)

lemma scan_largest_Some_iff:
  "scan_largest ms 0 0 None = Some i \<longleftrightarrow> first_largest ms i"
proof -
  from scan_largest_inv[OF scan_inv_Nil, of ms]
  obtain m' where inv: "scan_inv ms m' (scan_largest ms 0 0 None)" by auto
  show ?thesis
  proof (cases "scan_largest ms 0 0 None")
    case None
    with inv have "\<forall>j < length ms. \<forall>m'. ms ! j = Some m' \<longrightarrow> m' \<le> 0"
      by (simp add: scan_inv_def)
    then have "\<not> first_largest ms i"
      by (auto simp: first_largest_def)
    with None show ?thesis by simp
  next
    case (Some k)
    with inv have "first_largest ms k" by (simp add: scan_inv_def)
    then show ?thesis using Some first_largest_unique by auto
  qed
qed

lemma scan_largest_None_iff:
  "scan_largest ms 0 0 None = None \<longleftrightarrow>
     (\<forall>j < length ms. \<forall>m. ms ! j = Some m \<longrightarrow> m \<le> 0)"
proof -
  from scan_largest_inv[OF scan_inv_Nil, of ms]
  obtain m' where inv: "scan_inv ms m' (scan_largest ms 0 0 None)" by auto
  show ?thesis
  proof (cases "scan_largest ms 0 0 None")
    case None
    with inv show ?thesis by (simp add: scan_inv_def)
  next
    case (Some k)
    with inv have "first_largest ms k" by (simp add: scan_inv_def)
    then have "\<exists>m. ms ! k = Some m \<and> 0 < m \<and> k < length ms"
      by (rule first_largest_positive)
    then show ?thesis using Some by force
  qed
qed


lemmas ex_defs = join_candidate_def agg_candidate_def agg_mem_def is_spilled_def
  example_join_partition_def example_agg_partition_def example_table_def
  example_ByteSize_def example_stream_def

text \<open>
  The claim \<^bold>\<open>C3\<close> as stated fails in the join. With two open, non-spilled partitions, the
  first holding 100 bytes of build rows and a hash table of 8 buckets that has matches,
  the second 50 bytes and 4 buckets without matches, the loop picks the second, not the
  one with the largest memory. And with the first partition alone, \<^verbatim>\<open>SpillPartition\<close>
  returns the "memory limit too low" status although a resident partition exists.
\<close>

theorem SpillPartition_not_largest_resident_counterexample:
  "join_pick has_matches example_ByteSize
     [example_join_partition 100 8 True, example_join_partition 50 4 False] 0 0 None = Some 1
   \<and> \<not> jp_is_closed (example_join_partition 100 8 True)
   \<and> \<not> jp_is_spilled (example_join_partition 100 8 True)
   \<and> bytes_in_mem (the (build_rows (example_join_partition 100 8 True)))
         + example_ByteSize (the (jp_hash_tbl (example_join_partition 100 8 True)))
       > bytes_in_mem (the (build_rows (example_join_partition 50 4 False)))
         + example_ByteSize (the (jp_hash_tbl (example_join_partition 50 4 False)))
   \<and> join_SpillPartition has_matches example_ByteSize example_join_Spill
         ([example_join_partition 100 8 True], [None]) = Inl MemLimitTooLow"
  by (simp add: ex_defs join_SpillPartition_def)

text \<open>
  \<^bold>\<open>C3\<close>, amended. In both operators the candidates are the partitions the loop does not
  skip: open and not spilled, and in the join also with no match in the hash table.
  \<^verbatim>\<open>SpillPartition\<close> returns "memory limit too low" when no candidate has a positive
  memory; otherwise it calls \<^verbatim>\<open>Spill\<close> on the first candidate of largest memory (and on
  no other partition) and returns what \<^verbatim>\<open>Spill\<close> returns. The aggregation asserts
  (\<^verbatim>\<open>DCHECK_GT(mem, 0)\<close>) that every candidate's memory is positive.
\<close>

theorem SpillPartition_first_largest_candidate:
  "(no_candidate (map (agg_candidate ByteSize) ps) \<longrightarrow>
      agg_SpillPartition ByteSize aSpill (ps, tbls) = Inl MemLimitTooLow)
   \<and> (first_largest (map (agg_candidate ByteSize) ps) i \<longrightarrow>
      agg_SpillPartition ByteSize aSpill (ps, tbls) =
        (case aSpill (ps ! i) of Inl e \<Rightarrow> Inl e
         | Inr p' \<Rightarrow> Inr (ps[i := p'], tbls[i := None])))
   \<and> (no_candidate (map (join_candidate HasMatches jByteSize) js) \<longrightarrow>
      join_SpillPartition HasMatches jByteSize jSpill (js, jtbls) = Inl MemLimitTooLow)
   \<and> (first_largest (map (join_candidate HasMatches jByteSize) js) k \<longrightarrow>
      join_SpillPartition HasMatches jByteSize jSpill (js, jtbls) =
        (case jSpill (js ! k) of Inl e \<Rightarrow> Inl e
         | Inr p' \<Rightarrow> Inr (js[k := p'], jtbls[k := None], k)))"
proof (intro conjI impI)
  assume "no_candidate (map (agg_candidate ByteSize) ps)"
  then have "agg_pick ByteSize ps 0 0 None = None"
    by (simp add: agg_pick_scan scan_largest_None_iff no_candidate_def)
  then show "agg_SpillPartition ByteSize aSpill (ps, tbls) = Inl MemLimitTooLow"
    by (simp add: agg_SpillPartition_def)
next
  assume "first_largest (map (agg_candidate ByteSize) ps) i"
  then have "agg_pick ByteSize ps 0 0 None = Some i"
    by (simp add: agg_pick_scan scan_largest_Some_iff)
  then show "agg_SpillPartition ByteSize aSpill (ps, tbls) =
        (case aSpill (ps ! i) of Inl e \<Rightarrow> Inl e
         | Inr p' \<Rightarrow> Inr (ps[i := p'], tbls[i := None]))"
    by (simp add: agg_SpillPartition_def)
next
  assume "no_candidate (map (join_candidate HasMatches jByteSize) js)"
  then have "join_pick HasMatches jByteSize js 0 0 None = None"
    by (simp add: join_pick_scan scan_largest_None_iff no_candidate_def)
  then show "join_SpillPartition HasMatches jByteSize jSpill (js, jtbls) = Inl MemLimitTooLow"
    by (simp add: join_SpillPartition_def)
next
  assume "first_largest (map (join_candidate HasMatches jByteSize) js) k"
  then have "join_pick HasMatches jByteSize js 0 0 None = Some k"
    by (simp add: join_pick_scan scan_largest_Some_iff)
  then show "join_SpillPartition HasMatches jByteSize jSpill (js, jtbls) =
        (case jSpill (js ! k) of Inl e \<Rightarrow> Inl e
         | Inr p' \<Rightarrow> Inr (js[k := p'], jtbls[k := None], k))"
    by (simp add: join_SpillPartition_def)
qed

text \<open>Every list of candidates falls under one of the two cases of the theorem.\<close>

lemma no_candidate_or_first_largest: "no_candidate ms \<or> (\<exists>i. first_largest ms i)"
  using scan_largest_None_iff[of ms] scan_largest_Some_iff[of ms]
  by (cases "scan_largest ms 0 0 None") (auto simp: no_candidate_def)

text \<open>
  The theorem on three resident aggregation partitions of 114, 228 and 228 bytes (the
  second one is spilled), and on a join whose only resident partition has matches.
\<close>

theorem SpillPartition_first_largest_candidate_witness:
  "agg_SpillPartition example_ByteSize example_agg_Spill
     ([example_agg_partition 50 4, example_agg_partition 100 8, example_agg_partition 100 8],
      [None, None, None])
   = Inr ([example_agg_partition 50 4,
           (example_agg_partition 100 8)\<lparr>hash_tbl := None, agg_fn_pool := None\<rparr>,
           example_agg_partition 100 8], [None, None, None])
   \<and> join_SpillPartition has_matches example_ByteSize example_join_Spill
         ([example_join_partition 100 8 True], [None]) = Inl MemLimitTooLow"
proof -
  let ?ps = "[example_agg_partition 50 4, example_agg_partition 100 8, example_agg_partition 100 8]"
  let ?js = "[example_join_partition 100 8 True]"
  have a: "first_largest (map (agg_candidate example_ByteSize) ?ps) 1"
    by (simp add: ex_defs first_largest_def nth_Cons' less_Suc_eq numeral_3_eq_3 all_conj_distrib)
  have b: "no_candidate (map (join_candidate has_matches example_ByteSize) ?js)"
    by (simp add: ex_defs no_candidate_def)
  from SpillPartition_first_largest_candidate[where ByteSize = example_ByteSize and ps = "?ps"
      and i = 1 and aSpill = example_agg_Spill and tbls = "[None, None, None]"
      and HasMatches = has_matches and jByteSize = example_ByteSize and js = "?js"
      and jSpill = example_join_Spill and jtbls = "[None]" and k = 0] a b
  show ?thesis by (simp add: example_agg_Spill_def)
qed


text \<open>
  \<^bold>\<open>C10\<close>. The join's \<^verbatim>\<open>SpillPartition\<close> never selects a partition whose hash table has
  matches, whatever the memory sizes are: such a partition is not the index the loop
  returns, and when the call succeeds it is not the spilled partition and is unchanged.
\<close>

theorem join_spill_never_selects_matched:
  assumes "i < length ps" and "jp_hash_tbl (ps ! i) = Some h" and "HasMatches h"
  shows "join_pick HasMatches ByteSize ps 0 0 None \<noteq> Some i \<and>
         (\<forall>ps' tbls' k. join_SpillPartition HasMatches ByteSize Spill (ps, tbls) = Inr (ps', tbls', k)
             \<longrightarrow> k \<noteq> i \<and> ps' ! i = ps ! i)"
proof -
  have "join_candidate HasMatches ByteSize (ps ! i) = None"
    using assms by (simp add: join_candidate_def)
  then have "\<not> first_largest (map (join_candidate HasMatches ByteSize) ps) i"
    using assms(1) by (simp add: first_largest_def)
  then have pick: "join_pick HasMatches ByteSize ps 0 0 None \<noteq> Some i"
    by (simp add: join_pick_scan scan_largest_Some_iff)
  moreover have "k \<noteq> i \<and> ps' ! i = ps ! i"
    if "join_SpillPartition HasMatches ByteSize Spill (ps, tbls) = Inr (ps', tbls', k)"
    for ps' tbls' k
    using that pick
    by (auto simp: join_SpillPartition_def split: option.splits sum.splits)
  ultimately show ?thesis by blast
qed

text \<open>
  Two resident partitions, the first with matches and the larger memory: the first is
  not selected.
\<close>

theorem join_spill_never_selects_matched_witness:
  "join_pick has_matches example_ByteSize
     [example_join_partition 100 8 True, example_join_partition 50 4 False] 0 0 None \<noteq> Some 0"
proof -
  let ?ps = "[example_join_partition 100 8 True, example_join_partition 50 4 False]"
  have a: "0 < length ?ps" by simp
  have b: "jp_hash_tbl (?ps ! 0) = Some (example_table 8 True)"
    by (simp add: example_join_partition_def)
  have c: "has_matches (example_table 8 True)" by (simp add: example_table_def)
  from join_spill_never_selects_matched[where HasMatches = has_matches and i = 0
      and ps = "?ps" and h = "example_table 8 True" and ByteSize = example_ByteSize
      and Spill = example_join_Spill and tbls = "[]", OF a b c]
  show ?thesis by blast
qed

section \<open>The size check after repartitioning\<close>









section \<open>Closing twice\<close>

lemma agg_Partition_Close_closed:
  "is_closed (fst (agg_Partition_Close sz f (p, env)))"
  by (auto simp: agg_Partition_Close_def Let_def split: option.splits prod.splits)

lemma join_Partition_Close_closed:
  "jp_is_closed (fst (join_Partition_Close sz b (p, env)))"
  by (auto simp: join_Partition_Close_def Let_def split: option.splits prod.splits)

lemma agg_Partition_Close_noop: "is_closed p \<Longrightarrow> agg_Partition_Close sz f (p, env) = (p, env)"
  by (simp add: agg_Partition_Close_def)

lemma join_Partition_Close_noop:
  "jp_is_closed p \<Longrightarrow> join_Partition_Close sz b (p, env) = (p, env)"
  by (simp add: join_Partition_Close_def)

text \<open>
  \<^bold>\<open>C9\<close>, amended. \<^verbatim>\<open>Partition::Close\<close> of both operators starts with a test of the closed
  flag and sets it: a second call, with whatever argument, changes neither the
  partition nor anything outside it.
\<close>

theorem Partition_Close_twice:
  "agg_Partition_Close sz f2 (agg_Partition_Close sz f1 (p, env))
     = agg_Partition_Close sz f1 (p, env)
   \<and> join_Partition_Close sz b2 (join_Partition_Close sz b1 (jp, env))
     = join_Partition_Close sz b1 (jp, env)"
proof
  obtain p' env' where r: "agg_Partition_Close sz f1 (p, env) = (p', env')"
    by (cases "agg_Partition_Close sz f1 (p, env)")
  have "is_closed p'" using agg_Partition_Close_closed[of sz f1 p env] r by simp
  then show "agg_Partition_Close sz f2 (agg_Partition_Close sz f1 (p, env))
     = agg_Partition_Close sz f1 (p, env)"
    unfolding r by (rule agg_Partition_Close_noop)
next
  obtain p' env' where r: "join_Partition_Close sz b1 (jp, env) = (p', env')"
    by (cases "join_Partition_Close sz b1 (jp, env)")
  have "jp_is_closed p'" using join_Partition_Close_closed[of sz b1 jp env] r by simp
  then show "join_Partition_Close sz b2 (join_Partition_Close sz b1 (jp, env))
     = join_Partition_Close sz b1 (jp, env)"
    unfolding r by (rule join_Partition_Close_noop)
qed

text \<open>
  The claim \<^bold>\<open>C9\<close> as stated fails for \<^verbatim>\<open>HashTable::Close\<close> and for
  \<^verbatim>\<open>ExprValuesCache::Close\<close>. On a table of 8 buckets of 16 bytes, with 1000 bytes
  consumed, the first call leaves 872 bytes consumed and the second 744, and
  \<^verbatim>\<open>free\<close> is called on the bucket array both times. On a cache of capacity 2 the
  second call releases the cache's 34 bytes again.
\<close>

theorem Close_twice_counterexample:
  "HashTable_Close 16 (HashTable_Close 16 (example_table 8 False, example_env))
     \<noteq> HashTable_Close 16 (example_table 8 False, example_env)
   \<and> ExprValuesCache_Close (\<lambda>n. 8) (ExprValuesCache_Close (\<lambda>n. 8) (example_cache, example_env))
     \<noteq> ExprValuesCache_Close (\<lambda>n. 8) (example_cache, example_env)
   \<and> block_mgr_consumed (snd (HashTable_Close 16 (example_table 8 False, example_env))) = 872
   \<and> block_mgr_consumed
       (snd (HashTable_Close 16 (HashTable_Close 16 (example_table 8 False, example_env)))) = 744
   \<and> frees (snd (HashTable_Close 16 (HashTable_Close 16 (example_table 8 False, example_env)))) = 2
   \<and> tracker_consumption (snd (ExprValuesCache_Close (\<lambda>n. 8) (example_cache, example_env))) = 966
   \<and> tracker_consumption
       (snd (ExprValuesCache_Close (\<lambda>n. 8)
          (ExprValuesCache_Close (\<lambda>n. 8) (example_cache, example_env)))) = 932"
  by (simp add: HashTable_Close_def ExprValuesCache_Close_def MemUsage_def example_table_def
        example_env_def example_cache_def)


theorem Partition_Close_twice_witness:
  "agg_Partition_Close 16 True
      (agg_Partition_Close 16 False (example_agg_partition 50 4, example_env))
     = agg_Partition_Close 16 False (example_agg_partition 50 4, example_env)
   \<and> join_Partition_Close 16 False
      (join_Partition_Close 16 True (example_join_partition 50 4 False, example_env))
     = join_Partition_Close 16 True (example_join_partition 50 4 False, example_env)"
  by (rule Partition_Close_twice)

text \<open>
  \<^verbatim>\<open>ExprValuesCache::Close\<close> does nothing on a cache whose capacity is 0 (one that was
  never initialised, or whose initialisation failed).
\<close>

lemma ExprValuesCache_Close_capacity_0:
  "capacity c = 0 \<Longrightarrow> ExprValuesCache_Close bm (c, env) = (c, env)"
  by (simp add: ExprValuesCache_Close_def)
section \<open>CheckAndResize\<close>

lemma find_shift_least:
  assumes "\<not> real_of_int need > real_of_int (nb * 2 ^ (s + d)) * MAX_FILL_FACTOR"
  shows "\<exists>k. find_shift need nb s = Some k \<and> s \<le> k \<and> k \<le> s + d
           \<and> \<not> real_of_int need > real_of_int (nb * 2 ^ k) * MAX_FILL_FACTOR
           \<and> (\<forall>j. s \<le> j \<and> j < k \<longrightarrow> real_of_int need > real_of_int (nb * 2 ^ j) * MAX_FILL_FACTOR)"
  using assms
proof (induction d arbitrary: s)
  case 0
  then show ?case by (subst find_shift.simps) auto
next
  case (Suc d)
  show ?case
  proof (cases "real_of_int need > real_of_int (nb * 2 ^ s) * MAX_FILL_FACTOR")
    case False
    then show ?thesis by (subst find_shift.simps) auto
  next
    case True
    from Suc.prems have "\<not> real_of_int need > real_of_int (nb * 2 ^ (Suc s + d)) * MAX_FILL_FACTOR"
      by simp
    from Suc.IH[OF this] obtain k where k: "find_shift need nb (Suc s) = Some k" "Suc s \<le> k"
      "k \<le> Suc s + d" "\<not> real_of_int need > real_of_int (nb * 2 ^ k) * MAX_FILL_FACTOR"
      "\<forall>j. Suc s \<le> j \<and> j < k \<longrightarrow> real_of_int need > real_of_int (nb * 2 ^ j) * MAX_FILL_FACTOR"
      by blast
    have unf: "find_shift need nb s = find_shift need nb (Suc s)"
      using True by (subst find_shift.simps) simp
    have "\<forall>j. s \<le> j \<and> j < k \<longrightarrow> real_of_int need > real_of_int (nb * 2 ^ j) * MAX_FILL_FACTOR"
    proof (intro allI impI)
      fix j assume j: "s \<le> j \<and> j < k"
      show "real_of_int need > real_of_int (nb * 2 ^ j) * MAX_FILL_FACTOR"
      proof (cases "j = s")
        case True
        with \<open>real_of_int need > real_of_int (nb * 2 ^ s) * MAX_FILL_FACTOR\<close> show ?thesis by simp
      next
        case False
        with j have "Suc s \<le> j \<and> j < k" by simp
        with k(5) show ?thesis by blast
      qed
    qed
    with k unf show ?thesis by auto
  qed
qed

lemma shift_exists:
  assumes "0 < nb"
  shows "\<exists>d. \<not> real_of_int need > real_of_int (nb * 2 ^ d) * MAX_FILL_FACTOR"
proof (cases "need \<le> 0")
  case True
  have "0 \<le> real_of_int (nb * 2 ^ 0) * MAX_FILL_FACTOR"
    using assms by (simp add: MAX_FILL_FACTOR_def)
  with True have "\<not> real_of_int need > real_of_int (nb * 2 ^ 0) * MAX_FILL_FACTOR"
    by linarith
  then show ?thesis by blast
next
  case False
  define d where "d = nat (2 * need)"
  have "d < 2 ^ d" by (rule less_exp)
  then have "int d < 2 ^ d" by (metis of_nat_less_iff of_nat_numeral of_nat_power)
  then have a: "2 * need < 2 ^ d" using False by (simp add: d_def)
  have "(2::int) ^ d \<le> nb * 2 ^ d" using assms by simp
  with a have "2 * need < nb * 2 ^ d" by linarith
  then have "real_of_int (2 * need) < real_of_int (nb * 2 ^ d)"
    by (simp only: of_int_less_iff)
  then have "real_of_int need \<le> real_of_int (nb * 2 ^ d) * MAX_FILL_FACTOR"
    using False by (simp add: MAX_FILL_FACTOR_def)
  then show ?thesis by (metis not_less)
qed


lemma find_shift_example: "find_shift 7 8 0 = Some 1"
  by (subst find_shift.simps, simp add: MAX_FILL_FACTOR_def, subst find_shift.simps,
      simp add: MAX_FILL_FACTOR_def)

text \<open>
  The claim \<^bold>\<open>C6\<close> as stated says that the table is left unchanged when memory
  consumption fails. On a table of 8 buckets, none filled, asked to take 7 more, the new
  size is 16; when \<^verbatim>\<open>ConsumeMemory\<close> refuses, \<^verbatim>\<open>CheckAndResize\<close> returns false with the
  table's \<^verbatim>\<open>num_resizes_\<close> raised from 0 to 1: \<^verbatim>\<open>ResizeBuckets\<close> increments it before it
  asks for the memory.
\<close>

theorem CheckAndResize_memory_failure_counterexample:
  "CheckAndResize (\<lambda>env n. False) example_rebuild 16 7 (example_table 8 False, example_env)
     = Some (False, (example_table 8 False)\<lparr>num_resizes := 1\<rparr>, example_env)
   \<and> (example_table 8 False)\<lparr>num_resizes := 1\<rparr> \<noteq> example_table 8 False"
  by (simp add: CheckAndResize_def ResizeBuckets_def find_shift_example example_table_def)

text \<open>
  \<^bold>\<open>C6\<close>, amended. On a table whose bucket count is a power of two, with the sum of the
  filled buckets and \<open>buckets_to_fill\<close> in the range where the comparison in \<^verbatim>\<open>double\<close> is
  exact, \<^verbatim>\<open>CheckAndResize\<close> returns, and there is a smallest \<open>shift\<close> such that the sum is
  at most \<open>MAX_FILL_FACTOR\<close> times \<open>num_buckets * 2 ^ shift\<close>. If \<open>shift = 0\<close> it
  returns true and changes nothing. Otherwise, if the new count exceeds
  \<^verbatim>\<open>max_num_buckets_\<close> (when that is not \<open>-1\<close>) it returns false and changes nothing; if
  the memory is refused it returns false, and the table is as before except for
  \<^verbatim>\<open>num_resizes_\<close>, which is one higher; else it returns true with the bucket array
  rebuilt at the new count.
\<close>

theorem CheckAndResize_smallest_doubling:
  assumes "num_buckets h = 2 ^ k"
    and "0 \<le> num_filled_buckets h" and "0 \<le> buckets_to_fill"
    and "num_filled_buckets h + buckets_to_fill < 2 ^ 53"
  shows "\<exists>shift.
     real_of_int (num_filled_buckets h + buckets_to_fill)
       \<le> real_of_int (num_buckets h * 2 ^ shift) * MAX_FILL_FACTOR
     \<and> (\<forall>j < shift. real_of_int (num_filled_buckets h + buckets_to_fill)
                      > real_of_int (num_buckets h * 2 ^ j) * MAX_FILL_FACTOR)
     \<and> CheckAndResize ConsumeMemory rebuild sizeof_Bucket buckets_to_fill (h, env) =
         Some
          (if shift = 0 then (True, h, env)
           else if max_num_buckets h \<noteq> - 1 \<and> num_buckets h * 2 ^ shift > max_num_buckets h
           then (False, h, env)
           else if \<not> ConsumeMemory env (num_buckets h * 2 ^ shift * sizeof_Bucket)
           then (False, h\<lparr>num_resizes := num_resizes h + 1\<rparr>, env)
           else (True,
                 h\<lparr>num_resizes := num_resizes h + 1,
                   num_buckets := num_buckets h * 2 ^ shift,
                   buckets := Some (rebuild (buckets h) (num_buckets h * 2 ^ shift))\<rparr>,
                 env\<lparr>block_mgr_consumed :=
                       block_mgr_consumed env + num_buckets h * 2 ^ shift * sizeof_Bucket
                         - num_buckets h * sizeof_Bucket,
                     frees := (if buckets h \<noteq> None then frees env + 1 else frees env)\<rparr>))"
proof -
  let ?need = "num_filled_buckets h + buckets_to_fill"
  have pos: "0 < num_buckets h" using assms(1) by simp
  from shift_exists[OF pos, of ?need] obtain d where
    d: "\<not> real_of_int ?need > real_of_int (num_buckets h * 2 ^ (0 + d)) * MAX_FILL_FACTOR"
    by auto
  from find_shift_least[OF d] obtain shift where
    s: "find_shift ?need (num_buckets h) 0 = Some shift"
       "\<not> real_of_int ?need > real_of_int (num_buckets h * 2 ^ shift) * MAX_FILL_FACTOR"
       "\<forall>j. 0 \<le> j \<and> j < shift \<longrightarrow>
            real_of_int ?need > real_of_int (num_buckets h * 2 ^ j) * MAX_FILL_FACTOR"
    by blast
  have a: "real_of_int ?need \<le> real_of_int (num_buckets h * 2 ^ shift) * MAX_FILL_FACTOR"
    using s(2) by simp
  have b: "\<forall>j < shift. real_of_int ?need > real_of_int (num_buckets h * 2 ^ j) * MAX_FILL_FACTOR"
    using s(3) by simp
  have c: "CheckAndResize ConsumeMemory rebuild sizeof_Bucket buckets_to_fill (h, env) =
         Some
          (if shift = 0 then (True, h, env)
           else if max_num_buckets h \<noteq> - 1 \<and> num_buckets h * 2 ^ shift > max_num_buckets h
           then (False, h, env)
           else if \<not> ConsumeMemory env (num_buckets h * 2 ^ shift * sizeof_Bucket)
           then (False, h\<lparr>num_resizes := num_resizes h + 1\<rparr>, env)
           else (True,
                 h\<lparr>num_resizes := num_resizes h + 1,
                   num_buckets := num_buckets h * 2 ^ shift,
                   buckets := Some (rebuild (buckets h) (num_buckets h * 2 ^ shift))\<rparr>,
                 env\<lparr>block_mgr_consumed :=
                       block_mgr_consumed env + num_buckets h * 2 ^ shift * sizeof_Bucket
                         - num_buckets h * sizeof_Bucket,
                     frees := (if buckets h \<noteq> None then frees env + 1 else frees env)\<rparr>))"
    by (simp add: CheckAndResize_def ResizeBuckets_def s(1) Let_def)
  from a b c show ?thesis by blast
qed

text \<open>The theorem on the table of 8 buckets asked to take 7 more, with the memory
  granted: the table grows to 16 buckets.\<close>

theorem CheckAndResize_smallest_doubling_witness:
  "CheckAndResize (\<lambda>env n. True) example_rebuild 16 7 (example_table 8 False, example_env)
     = Some (True,
         (example_table 8 False)\<lparr>num_resizes := 1, num_buckets := 16,
            buckets := Some (example_rebuild (buckets (example_table 8 False)) 16)\<rparr>,
         example_env\<lparr>block_mgr_consumed := 1128, frees := 1\<rparr>)"
proof -
  let ?h = "example_table 8 False"
  have h1: "num_buckets ?h = 2 ^ 3" by (simp add: example_table_def)
  have h2: "0 \<le> num_filled_buckets ?h" by (simp add: example_table_def)
  have h3: "(0::int) \<le> 7" by simp
  have h4: "num_filled_buckets ?h + 7 < 2 ^ 53" by (simp add: example_table_def)
  from CheckAndResize_smallest_doubling[OF h1 h2 h3 h4, of "\<lambda>env n. True" example_rebuild 16 example_env]
  obtain shift where
    a: "real_of_int (num_filled_buckets ?h + 7) \<le> real_of_int (num_buckets ?h * 2 ^ shift) * MAX_FILL_FACTOR"
    and b: "\<forall>j < shift. real_of_int (num_filled_buckets ?h + 7)
                      > real_of_int (num_buckets ?h * 2 ^ j) * MAX_FILL_FACTOR"
    and c: "CheckAndResize (\<lambda>env n. True) example_rebuild 16 7 (?h, example_env) =
         Some
          (if shift = 0 then (True, ?h, example_env)
           else if max_num_buckets ?h \<noteq> - 1 \<and> num_buckets ?h * 2 ^ shift > max_num_buckets ?h
           then (False, ?h, example_env)
           else if \<not> True
           then (False, ?h\<lparr>num_resizes := num_resizes ?h + 1\<rparr>, example_env)
           else (True,
                 ?h\<lparr>num_resizes := num_resizes ?h + 1,
                   num_buckets := num_buckets ?h * 2 ^ shift,
                   buckets := Some (example_rebuild (buckets ?h) (num_buckets ?h * 2 ^ shift))\<rparr>,
                 example_env\<lparr>block_mgr_consumed :=
                       block_mgr_consumed example_env + num_buckets ?h * 2 ^ shift * 16
                         - num_buckets ?h * 16,
                     frees := (if buckets ?h \<noteq> None then frees example_env + 1 else frees example_env)\<rparr>))"
    by blast
  have n0: "shift \<noteq> 0"
  proof
    assume "shift = 0"
    with a show False by (simp add: example_table_def MAX_FILL_FACTOR_def)
  qed
  have "\<not> 1 < shift"
  proof
    assume "1 < shift"
    with b have "real_of_int (num_filled_buckets ?h + 7)
                      > real_of_int (num_buckets ?h * 2 ^ 1) * MAX_FILL_FACTOR" by blast
    then show False by (simp add: example_table_def MAX_FILL_FACTOR_def)
  qed
  with n0 have s1: "shift = 1" by simp
  show ?thesis
    unfolding c s1
    by (simp add: example_table_def example_env_def)
qed

section \<open>Expanding the hash tables of a streaming pre-aggregation\<close>








section \<open>A streaming pre-aggregation does not spill\<close>


















end
